theory Spec2Isabelle
  imports Main "HOL-Library.Word"
begin

section \<open>The read / may-write / write lock (ReadMayWriteWriteLock.cpp)\<close>

text \<open>
  The lock is a monitor: every method body runs under \<open>internalMutex\<close> and gives the
  mutex up only inside \<open>condition_variable::wait\<close>. Each method is therefore modelled
  by its atomic segments: the segment from the call to either the return or the first
  \<open>wait\<close>, and the segment that runs when a sleeping thread wakes up (notified or
  spuriously) and re-evaluates its loop condition.

  \<^item> \<open>unsigned int\<close> is a 32-bit word, so \<open>++\<close> and \<open>--\<close> wrap around.
  \<^item> \<open>thread::id\<close> is a \<open>nat option\<close>; \<open>None\<close> is the default-constructed
    \<open>thread::id()\<close> that represents no thread.
  \<^item> A \<open>shared_ptr<condition_variable>\<close> is the address of the condition variable.
    \<open>make_shared\<close> returns an address that no live object has; the address is a
    parameter of the functions that allocate.
  \<^item> A failing \<open>assert\<close> aborts the program: the result is \<open>Inl AssertionFailed\<close>.
    \<open>front()\<close>, \<open>back()\<close> or \<open>pop_front()\<close> on an empty \<open>std::list\<close> and a null
    pointer dereference are \<open>Inl UndefinedBehaviour\<close>.
\<close>

datatype Operation = READ | MAY_WRITE | WRITE

datatype fault = AssertionFailed | UndefinedBehaviour | Blocked

type_synonym thread_id = nat
type_synonym ConditionPtr = nat
type_synonym ConditionTuple = "ConditionPtr \<times> Operation \<times> 32 word"

record Lock =
  threadQueue :: "ConditionTuple list"
  readersNumber :: "32 word"
  isWriterHolding :: bool
  mayWriterThreadId :: "thread_id option"

text \<open>The constructor: no reader, no writer, an empty queue and no may-writer.\<close>

definition newLock :: Lock where
  "newLock = \<lparr>threadQueue = [], readersNumber = 0, isWriterHolding = False,
              mayWriterThreadId = None\<rparr>"

definition CanReaderAcquireLock :: "Lock \<Rightarrow> bool" where
  "CanReaderAcquireLock l = (\<not> isWriterHolding l)"

definition CanMayWriterAcquireLock :: "Lock \<Rightarrow> bool" where
  "CanMayWriterAcquireLock l = (mayWriterThreadId l = None \<and> CanReaderAcquireLock l)"

definition CanWriterAcquireLock :: "Lock \<Rightarrow> bool" where
  "CanWriterAcquireLock l = (readersNumber l = 0 \<and> CanMayWriterAcquireLock l)"

fun CanAcquireLock :: "Operation \<Rightarrow> Lock \<Rightarrow> bool" where
  "CanAcquireLock READ l = CanReaderAcquireLock l"
| "CanAcquireLock MAY_WRITE l = CanMayWriterAcquireLock l"
| "CanAcquireLock WRITE l = CanWriterAcquireLock l"

text \<open>\<open>c\<close> is the address of the condition variable that \<open>make_shared\<close> returns.\<close>

definition InsertConditionTuple :: "ConditionPtr \<Rightarrow> Operation \<Rightarrow> bool \<Rightarrow> Lock \<Rightarrow> Lock" where
  "InsertConditionTuple c operation isVIP l =
     (if isVIP then l\<lparr>threadQueue := (c, operation, 1) # threadQueue l\<rparr>
      else l\<lparr>threadQueue := threadQueue l @ [(c, operation, 1)]\<rparr>)"

text \<open>
  \<open>ShouldThreadWait\<close>: the \<open>switch\<close> on the queue size computes the flag (case 0
  leaves the switch, case 1 falls through to the default label), the default label
  merges a reader that has to wait into a READ entry at the back, and the code after the
  switch inserts a new entry.
\<close>

definition ShouldThreadWait :: "ConditionPtr \<Rightarrow> Operation \<Rightarrow> Lock \<Rightarrow> fault + bool \<times> Lock" where
  "ShouldThreadWait c operation l =
     (let q = threadQueue l;
          shouldThreadWait =
            (if length q = 0 then \<not> CanAcquireLock operation l
             else if length q = 1 then
               operation \<noteq> READ \<or> fst (snd (hd q)) \<noteq> READ \<or> \<not> CanAcquireLock operation l
             else True)
      in if length q \<noteq> 0 \<and> operation = READ \<and> shouldThreadWait \<and> fst (snd (last q)) = READ
         then (if 0 < snd (snd (last q))
               then Inr (shouldThreadWait,
                         l\<lparr>threadQueue := butlast q @ [(fst (last q), READ, snd (snd (last q)) + 1)]\<rparr>)
               else Inl AssertionFailed)
         else if shouldThreadWait then Inr (shouldThreadWait, InsertConditionTuple c operation False l)
         else Inr (shouldThreadWait, l))"

definition TryNotifyingNext :: "Lock \<Rightarrow> ConditionPtr option" where
  "TryNotifyingNext l =
     (case threadQueue l of
        [] \<Rightarrow> None
      | (c, operation, n) # rest \<Rightarrow> if CanAcquireLock operation l then Some c else None)"

text \<open>
  Where a call stands at the end of an atomic segment: it has returned (and has called
  \<open>notify_all\<close> on the given condition variable, if any), or the thread sleeps on the
  condition variable whose address its local \<open>conditionPtr\<close> holds.
\<close>

datatype outcome = Returned "ConditionPtr option" Lock | Waiting ConditionPtr Lock

text \<open>\<open>Wait\<close> up to the first \<open>conditionPtr->wait(lock)\<close>.\<close>

definition Wait :: "ConditionPtr \<Rightarrow> Operation \<Rightarrow> Lock \<Rightarrow> fault + outcome" where
  "Wait c operation l =
     (case ShouldThreadWait c operation l of
        Inl e \<Rightarrow> Inl e
      | Inr (shouldWait, l') \<Rightarrow>
          if \<not> shouldWait then Inr (Returned None l')
          else Inr (Waiting (fst (last (threadQueue l'))) l'))"

text \<open>
  \<open>Wait\<close> from a wake-up of the thread sleeping on \<open>conditionPtr\<close>: the loop condition,
  and the code after the loop when the loop is left.
\<close>

definition Wait_wake :: "ConditionPtr \<Rightarrow> Operation \<Rightarrow> Lock \<Rightarrow> fault + outcome" where
  "Wait_wake conditionPtr operation l =
     (case threadQueue l of
        [] \<Rightarrow> Inl UndefinedBehaviour
      | (c, m, n) # rest \<Rightarrow>
          if c \<noteq> conditionPtr \<or> \<not> CanAcquireLock operation l then Inr (Waiting conditionPtr l)
          else if operation = READ \<and> \<not> 0 < n then Inl AssertionFailed
          else if operation = READ \<and> n - 1 \<noteq> 0
               then Inr (Returned None (l\<lparr>threadQueue := (c, m, n - 1) # rest\<rparr>))
          else if operation \<noteq> WRITE
               then Inr (Returned (TryNotifyingNext (l\<lparr>threadQueue := rest\<rparr>)) (l\<lparr>threadQueue := rest\<rparr>))
          else Inr (Returned None (l\<lparr>threadQueue := rest\<rparr>)))"

text \<open>The statements of the three acquiring methods that follow the call of \<open>Wait\<close>.\<close>

definition LockRead_acquire :: "Lock \<Rightarrow> fault + Lock" where
  "LockRead_acquire l = Inr (l\<lparr>readersNumber := readersNumber l + 1\<rparr>)"

definition LockMayWrite_acquire :: "thread_id \<Rightarrow> Lock \<Rightarrow> fault + Lock" where
  "LockMayWrite_acquire self l =
     (let l1 = l\<lparr>readersNumber := readersNumber l + 1\<rparr>
      in if mayWriterThreadId l1 = None then Inr (l1\<lparr>mayWriterThreadId := Some self\<rparr>)
         else Inl AssertionFailed)"

definition LockWrite_acquire :: "Lock \<Rightarrow> fault + Lock" where
  "LockWrite_acquire l =
     (if \<not> isWriterHolding l then Inr (l\<lparr>isWriterHolding := True\<rparr>) else Inl AssertionFailed)"

definition afterWait :: "(Lock \<Rightarrow> fault + Lock) \<Rightarrow> fault + outcome \<Rightarrow> fault + outcome" where
  "afterWait rest r =
     (case r of
        Inl e \<Rightarrow> Inl e
      | Inr (Waiting cp l) \<Rightarrow> Inr (Waiting cp l)
      | Inr (Returned notified l) \<Rightarrow>
          (case rest l of Inl e \<Rightarrow> Inl e | Inr l' \<Rightarrow> Inr (Returned notified l')))"

definition LockRead :: "ConditionPtr \<Rightarrow> Lock \<Rightarrow> fault + outcome" where
  "LockRead c l = afterWait LockRead_acquire (Wait c READ l)"

definition LockRead_wake :: "ConditionPtr \<Rightarrow> Lock \<Rightarrow> fault + outcome" where
  "LockRead_wake conditionPtr l = afterWait LockRead_acquire (Wait_wake conditionPtr READ l)"

definition LockMayWrite :: "thread_id \<Rightarrow> ConditionPtr \<Rightarrow> Lock \<Rightarrow> fault + outcome" where
  "LockMayWrite self c l = afterWait (LockMayWrite_acquire self) (Wait c MAY_WRITE l)"

definition LockMayWrite_wake :: "thread_id \<Rightarrow> ConditionPtr \<Rightarrow> Lock \<Rightarrow> fault + outcome" where
  "LockMayWrite_wake self conditionPtr l =
     afterWait (LockMayWrite_acquire self) (Wait_wake conditionPtr MAY_WRITE l)"

definition LockWrite :: "ConditionPtr \<Rightarrow> Lock \<Rightarrow> fault + outcome" where
  "LockWrite c l = afterWait LockWrite_acquire (Wait c WRITE l)"

definition LockWrite_wake :: "ConditionPtr \<Rightarrow> Lock \<Rightarrow> fault + outcome" where
  "LockWrite_wake conditionPtr l = afterWait LockWrite_acquire (Wait_wake conditionPtr WRITE l)"

text \<open>\<open>UpgradeLock\<close> up to the return or the first wait, and from a wake-up.\<close>

definition UpgradeLock :: "thread_id \<Rightarrow> ConditionPtr \<Rightarrow> Lock \<Rightarrow> fault + outcome" where
  "UpgradeLock self c l =
     (if \<not> 0 < readersNumber l then Inl AssertionFailed
      else if mayWriterThreadId l \<noteq> Some self then Inl AssertionFailed
      else let l1 = l\<lparr>readersNumber := readersNumber l - 1, mayWriterThreadId := None\<rparr>
           in if \<not> CanWriterAcquireLock l1
              then Inr (Waiting c (InsertConditionTuple c WRITE True l1))
              else afterWait LockWrite_acquire (Inr (Returned None l1)))"

definition UpgradeLock_wake :: "ConditionPtr \<Rightarrow> Lock \<Rightarrow> fault + outcome" where
  "UpgradeLock_wake conditionPtr l =
     (if \<not> CanWriterAcquireLock l then Inr (Waiting conditionPtr l)
      else case threadQueue l of
             [] \<Rightarrow> Inl UndefinedBehaviour
           | front # rest \<Rightarrow> afterWait LockWrite_acquire (Inr (Returned None (l\<lparr>threadQueue := rest\<rparr>))))"

definition ReleaseSharedLock :: "thread_id \<Rightarrow> Lock \<Rightarrow> fault + outcome" where
  "ReleaseSharedLock self l =
     (if \<not> 0 < readersNumber l then Inl AssertionFailed
      else let l1 = l\<lparr>readersNumber := readersNumber l - 1\<rparr>
           in if mayWriterThreadId l1 = Some self
              then Inr (Returned (TryNotifyingNext (l1\<lparr>mayWriterThreadId := None\<rparr>))
                                 (l1\<lparr>mayWriterThreadId := None\<rparr>))
              else if 0 < readersNumber l1 then Inr (Returned None l1)
              else Inr (Returned (TryNotifyingNext l1) l1))"

definition ReleaseExclusiveLock :: "Lock \<Rightarrow> fault + outcome" where
  "ReleaseExclusiveLock l =
     (if \<not> isWriterHolding l then Inl AssertionFailed
      else let l1 = l\<lparr>isWriterHolding := False\<rparr>
           in Inr (Returned (case threadQueue l1 of [] \<Rightarrow> None | (c, m, n) # rest \<Rightarrow> Some c) l1))"


subsection \<open>The lock shared by several threads\<close>

text \<open>
  A thread is either outside the lock's methods or asleep in \<open>wait\<close>, inside \<open>Wait\<close>
  (with its \<open>operation\<close> and \<open>conditionPtr\<close>) or inside \<open>UpgradeLock\<close> (with its
  \<open>conditionPtr\<close>). An event is a thread calling a method, which runs the method's first
  atomic segment, or a sleeping thread waking up, which runs the segment after the
  \<open>wait\<close>. A sleeping thread may wake at any time, since condition variables wake
  spuriously. \<open>nextCondition\<close> is the address the next \<open>make_shared\<close> returns.
\<close>

datatype lock_method =
  CallLockRead | CallLockMayWrite | CallLockWrite | CallUpgradeLock
  | CallReleaseSharedLock | CallReleaseExclusiveLock

definition lockMethod :: "lock_method \<Rightarrow> thread_id \<Rightarrow> ConditionPtr \<Rightarrow> Lock \<Rightarrow> fault + outcome" where
  "lockMethod m self c l =
     (case m of
        CallLockRead \<Rightarrow> LockRead c l
      | CallLockMayWrite \<Rightarrow> LockMayWrite self c l
      | CallLockWrite \<Rightarrow> LockWrite c l
      | CallUpgradeLock \<Rightarrow> UpgradeLock self c l
      | CallReleaseSharedLock \<Rightarrow> ReleaseSharedLock self l
      | CallReleaseExclusiveLock \<Rightarrow> ReleaseExclusiveLock l)"

datatype sleeping = InWait Operation ConditionPtr | InUpgradeLock ConditionPtr

definition sleepingIn :: "lock_method \<Rightarrow> ConditionPtr \<Rightarrow> sleeping" where
  "sleepingIn m cp =
     (case m of
        CallLockRead \<Rightarrow> InWait READ cp
      | CallLockMayWrite \<Rightarrow> InWait MAY_WRITE cp
      | CallLockWrite \<Rightarrow> InWait WRITE cp
      | _ \<Rightarrow> InUpgradeLock cp)"

definition wakeMethod :: "sleeping \<Rightarrow> thread_id \<Rightarrow> Lock \<Rightarrow> fault + outcome" where
  "wakeMethod w self l =
     (case w of
        InWait READ cp \<Rightarrow> LockRead_wake cp l
      | InWait MAY_WRITE cp \<Rightarrow> LockMayWrite_wake self cp l
      | InWait WRITE cp \<Rightarrow> LockWrite_wake cp l
      | InUpgradeLock cp \<Rightarrow> UpgradeLock_wake cp l)"

record system =
  lockState :: Lock
  asleep :: "thread_id \<Rightarrow> sleeping option"
  nextCondition :: ConditionPtr

definition initial :: system where
  "initial = \<lparr>lockState = newLock, asleep = (\<lambda>t. None), nextCondition = 0\<rparr>"

datatype event = Call lock_method thread_id | WakeUp thread_id

text \<open>
  One event. The result is \<open>None\<close> when the event cannot happen (a sleeping thread
  calls nothing, a thread that is not asleep does not wake) and when the segment aborts
  the program (a failing \<open>assert\<close>, undefined behaviour): no state follows.
\<close>

definition settle :: "thread_id \<Rightarrow> (ConditionPtr \<Rightarrow> sleeping) \<Rightarrow> system \<Rightarrow> fault + outcome \<Rightarrow> system option" where
  "settle t w s r =
     (case r of
        Inl e \<Rightarrow> None
      | Inr (Returned notified l) \<Rightarrow> Some (s\<lparr>lockState := l, asleep := (asleep s)(t := None)\<rparr>)
      | Inr (Waiting cp l) \<Rightarrow> Some (s\<lparr>lockState := l, asleep := (asleep s)(t := Some (w cp))\<rparr>))"

fun step :: "event \<Rightarrow> system \<Rightarrow> system option" where
  "step (Call m t) s =
     (case asleep s t of
        Some w \<Rightarrow> None
      | None \<Rightarrow> settle t (sleepingIn m) (s\<lparr>nextCondition := nextCondition s + 1\<rparr>)
                 (lockMethod m t (nextCondition s) (lockState s)))"
| "step (WakeUp t) s =
     (case asleep s t of
        None \<Rightarrow> None
      | Some w \<Rightarrow> settle t (\<lambda>cp. w) s (wakeMethod w t (lockState s)))"

fun run :: "event list \<Rightarrow> system \<Rightarrow> system option" where
  "run [] s = Some s"
| "run (e # es) s = (case step e s of None \<Rightarrow> None | Some s' \<Rightarrow> run es s')"

section \<open>The concurrent doubly-linked list (ConcurrentDoublyLinkedList.cpp)\<close>

text \<open>
  Nodes live in a store, a list of nodes indexed by address; \<open>make_shared<Node>\<close>
  appends a node and returns its index. A \<open>shared_ptr<Node>\<close> is a \<open>nat option\<close>,
  \<open>None\<close> for \<open>nullptr\<close>. Keys are C++ \<open>int\<close>s, which the list only compares:
  they are modelled by \<open>int\<close>.

  The list methods are modelled as one thread runs them while no other thread touches the
  list. In that setting a lock method whose first atomic segment ends in a wait never
  returns (nobody is there to release the lock), which is the fault \<open>Blocked\<close>. Besides
  the nodes, the store keeps the sequence of lock calls that have returned, so that the
  order in which a method takes and releases the node locks can be stated.
\<close>

type_synonym NodePtr = "nat option"

record Node =
  key :: int
  data :: char
  prevPtr :: NodePtr
  nextPtr :: NodePtr
  isNodeActive :: bool
  lock :: Lock

record store =
  nodes :: "Node list"
  lockCalls :: "(lock_method \<times> nat) list"

text \<open>The constructor of \<open>Node\<close>.\<close>

definition newNode :: "int \<Rightarrow> char \<Rightarrow> NodePtr \<Rightarrow> NodePtr \<Rightarrow> Node" where
  "newNode in_key in_data in_prevPtr in_nextPtr =
     \<lparr>key = in_key, data = in_data, prevPtr = in_prevPtr, nextPtr = in_nextPtr,
      isNodeActive = True, lock = newLock\<rparr>"

text \<open>
  The two sentinels are allocated first, \<open>head\<close> before \<open>tail\<close> (the order of the
  member declarations), so they are the nodes 0 and 1 of every store.
\<close>

definition head :: nat where
  "head = 0"

definition tail :: nat where
  "tail = 1"

text \<open>The constructor of the list: \<open>head->nextPtr = tail; tail->prevPtr = head\<close>.\<close>

definition ConcurrentDoublyLinkedList :: store where
  "ConcurrentDoublyLinkedList =
     \<lparr>nodes = [(newNode 0 CHR ''0'' None None)\<lparr>nextPtr := Some tail\<rparr>,
               (newNode 0 CHR ''0'' None None)\<lparr>prevPtr := Some head\<rparr>],
      lockCalls = []\<rparr>"

definition thenE :: "fault + 'a \<Rightarrow> ('a \<Rightarrow> fault + 'b) \<Rightarrow> fault + 'b" where
  "thenE m f = (case m of Inl e \<Rightarrow> Inl e | Inr x \<Rightarrow> f x)"

text \<open>\<open>p->\<close>: reading through a pointer.\<close>

definition deref :: "NodePtr \<Rightarrow> store \<Rightarrow> fault + Node" where
  "deref p s =
     (case p of
        None \<Rightarrow> Inl UndefinedBehaviour
      | Some a \<Rightarrow> if a < length (nodes s) then Inr (nodes s ! a) else Inl UndefinedBehaviour)"

text \<open>\<open>p->field = value\<close>: writing through a pointer.\<close>

definition assign :: "NodePtr \<Rightarrow> (Node \<Rightarrow> Node) \<Rightarrow> store \<Rightarrow> fault + store" where
  "assign p f s =
     (case p of
        None \<Rightarrow> Inl UndefinedBehaviour
      | Some a \<Rightarrow> if a < length (nodes s) then Inr (s\<lparr>nodes := (nodes s)[a := f (nodes s ! a)]\<rparr>)
                  else Inl UndefinedBehaviour)"

text \<open>
  \<open>p->lock.m()\<close>, called by thread \<open>self\<close>, the only thread there is. The address
  of the condition variable that a waiting call would allocate plays no role, since a
  call that waits never returns.
\<close>

definition lockCall :: "lock_method \<Rightarrow> thread_id \<Rightarrow> NodePtr \<Rightarrow> store \<Rightarrow> fault + store" where
  "lockCall m self p s =
     thenE (deref p s) (\<lambda>n.
       case lockMethod m self 0 (lock n) of
         Inl e \<Rightarrow> Inl e
       | Inr (Waiting cp l') \<Rightarrow> Inl Blocked
       | Inr (Returned notified l') \<Rightarrow>
           Inr (s\<lparr>nodes := (nodes s)[the p := n\<lparr>lock := l'\<rparr>],
                  lockCalls := lockCalls s @ [(m, the p)]\<rparr>))"

text \<open>The in/out parameters \<open>prev\<close> and \<open>next\<close> are returned with the store.\<close>

definition AdvanceAndLockReadMayWrite ::
  "thread_id \<Rightarrow> NodePtr \<Rightarrow> NodePtr \<Rightarrow> bool \<Rightarrow> store \<Rightarrow> fault + NodePtr \<times> NodePtr \<times> store" where
  "AdvanceAndLockReadMayWrite self prev next isRead s =
     (if isRead then
        thenE (deref next s) (\<lambda>n.
        thenE (lockCall CallReleaseSharedLock self next s) (\<lambda>s1.
        thenE (lockCall CallLockRead self (nextPtr n) s1) (\<lambda>s2.
        Inr (next, nextPtr n, s2))))
      else
        thenE (lockCall CallReleaseSharedLock self prev s) (\<lambda>s1.
        thenE (deref next s1) (\<lambda>n.
        thenE (lockCall CallLockMayWrite self (nextPtr n) s1) (\<lambda>s2.
        Inr (next, nextPtr n, s2)))))"

text \<open>
  The \<open>while\<close> loop of \<open>FindKey\<close>. The list a caller passes may be cyclic, so the loop
  need not end: the result is \<open>None\<close> then.
\<close>

partial_function (option) FindKey_while ::
  "thread_id \<Rightarrow> int \<Rightarrow> bool \<Rightarrow> NodePtr \<Rightarrow> NodePtr \<Rightarrow> store
     \<Rightarrow> (fault + NodePtr \<times> NodePtr \<times> store) option" where
  "FindKey_while self k isRead prev next s =
     (case deref next s of
        Inl e \<Rightarrow> Some (Inl e)
      | Inr n \<Rightarrow>
          if (key n < k \<and> next \<noteq> Some tail) \<or> next = Some head
          then (case AdvanceAndLockReadMayWrite self prev next isRead s of
                  Inl e \<Rightarrow> Some (Inl e)
                | Inr (prev', next', s') \<Rightarrow> FindKey_while self k isRead prev' next' s')
          else Some (Inr (prev, next, s)))"

text \<open>\<open>FindKey\<close> returns the updated \<open>position\<close>, the candidate and the store.\<close>

definition FindKey ::
  "thread_id \<Rightarrow> NodePtr \<Rightarrow> int \<Rightarrow> bool \<Rightarrow> store \<Rightarrow> (fault + NodePtr \<times> NodePtr \<times> store) option" where
  "FindKey self position k isRead s =
     (if isRead then FindKey_while self k isRead position position s
      else case thenE (deref position s) (\<lambda>p.
                thenE (lockCall CallLockMayWrite self (nextPtr p) s) (\<lambda>s1.
                Inr (nextPtr p, s1))) of
             Inl e \<Rightarrow> Some (Inl e)
           | Inr (next, s1) \<Rightarrow> FindKey_while self k isRead position next s1)"

definition InsertFromPosition ::
  "thread_id \<Rightarrow> NodePtr \<Rightarrow> int \<Rightarrow> char \<Rightarrow> store \<Rightarrow> (fault + bool \<times> store) option" where
  "InsertFromPosition self position k d s =
     (case FindKey self position k False s of
        None \<Rightarrow> None
      | Some (Inl e) \<Rightarrow> Some (Inl e)
      | Some (Inr (prev, next, s0)) \<Rightarrow> Some (
          thenE (deref next s0) (\<lambda>n.
          let result = (key n \<noteq> k \<or> next = Some tail) in
          if result then
            thenE (lockCall CallUpgradeLock self prev s0) (\<lambda>s1.
            thenE (lockCall CallUpgradeLock self next s1) (\<lambda>s2.
            let new = length (nodes s2);
                s3 = s2\<lparr>nodes := nodes s2 @ [newNode k d prev next]\<rparr> in
            thenE (assign prev (\<lambda>x. x\<lparr>nextPtr := Some new\<rparr>) s3) (\<lambda>s4.
            thenE (deref prev s4) (\<lambda>p.
            thenE (assign next (\<lambda>x. x\<lparr>prevPtr := nextPtr p\<rparr>) s4) (\<lambda>s5.
            thenE (lockCall CallReleaseExclusiveLock self prev s5) (\<lambda>s6.
            thenE (lockCall CallReleaseExclusiveLock self next s6) (\<lambda>s7.
            Inr (result, s7))))))))
          else
            thenE (lockCall CallReleaseSharedLock self prev s0) (\<lambda>s1.
            thenE (lockCall CallReleaseSharedLock self next s1) (\<lambda>s2.
            Inr (result, s2))))))"

definition InsertHead :: "thread_id \<Rightarrow> int \<Rightarrow> char \<Rightarrow> store \<Rightarrow> (fault + bool \<times> store) option" where
  "InsertHead self k d s =
     (case lockCall CallLockMayWrite self (Some head) s of
        Inl e \<Rightarrow> Some (Inl e)
      | Inr s1 \<Rightarrow> InsertFromPosition self (Some head) k d s1)"

text \<open>The \<open>while\<close> loop of \<open>InsertTail\<close>; it returns \<open>prev\<close> and the store.\<close>

partial_function (option) InsertTail_while ::
  "thread_id \<Rightarrow> int \<Rightarrow> NodePtr \<Rightarrow> store \<Rightarrow> (fault + NodePtr \<times> store) option" where
  "InsertTail_while self k prev s =
     (case deref prev s of
        Inl e \<Rightarrow> Some (Inl e)
      | Inr p \<Rightarrow>
          if (key p > k \<and> prev \<noteq> Some head) \<or> \<not> isNodeActive p
          then (case thenE (lockCall CallReleaseSharedLock self prev s) (\<lambda>s1.
                     thenE (lockCall CallLockMayWrite self (prevPtr p) s1) (\<lambda>s2.
                     Inr (prevPtr p, s2))) of
                  Inl e \<Rightarrow> Some (Inl e)
                | Inr (prev', s') \<Rightarrow> InsertTail_while self k prev' s')
          else Some (Inr (prev, s)))"

definition InsertTail :: "thread_id \<Rightarrow> int \<Rightarrow> char \<Rightarrow> store \<Rightarrow> (fault + bool \<times> store) option" where
  "InsertTail self k d s =
     (case thenE (lockCall CallLockRead self (Some tail) s) (\<lambda>s1.
           thenE (deref (Some tail) s1) (\<lambda>t.
           thenE (lockCall CallReleaseSharedLock self (Some tail) s1) (\<lambda>s2.
           thenE (lockCall CallLockMayWrite self (prevPtr t) s2) (\<lambda>s3.
           Inr (prevPtr t, s3))))) of
        Inl e \<Rightarrow> Some (Inl e)
      | Inr (prev0, s3) \<Rightarrow>
          (case InsertTail_while self k prev0 s3 of
             None \<Rightarrow> None
           | Some (Inl e) \<Rightarrow> Some (Inl e)
           | Some (Inr (prev, s4)) \<Rightarrow>
               (case deref prev s4 of
                  Inl e \<Rightarrow> Some (Inl e)
                | Inr p \<Rightarrow>
                    if prev \<noteq> Some head \<and> key p = k
                    then Some (thenE (lockCall CallReleaseSharedLock self prev s4) (\<lambda>s5.
                               Inr (False, s5)))
                    else InsertFromPosition self prev k d s4)))"

definition Delete :: "thread_id \<Rightarrow> int \<Rightarrow> store \<Rightarrow> (fault + bool \<times> store) option" where
  "Delete self k s =
     (case lockCall CallLockMayWrite self (Some head) s of
        Inl e \<Rightarrow> Some (Inl e)
      | Inr s0 \<Rightarrow>
     (case FindKey self (Some head) k False s0 of
        None \<Rightarrow> None
      | Some (Inl e) \<Rightarrow> Some (Inl e)
      | Some (Inr (prev, next, s1)) \<Rightarrow> Some (
          thenE (deref next s1) (\<lambda>n.
          let result = (key n = k \<and> next \<noteq> Some tail) in
          if result then
            thenE (lockCall CallUpgradeLock self prev s1) (\<lambda>s2.
            thenE (lockCall CallUpgradeLock self next s2) (\<lambda>s3.
            let del = next in
            thenE (deref del s3) (\<lambda>dn.
            let next' = nextPtr dn in
            thenE (lockCall CallLockWrite self next' s3) (\<lambda>s4.
            thenE (assign prev (\<lambda>x. x\<lparr>nextPtr := next'\<rparr>) s4) (\<lambda>s5.
            thenE (assign next' (\<lambda>x. x\<lparr>prevPtr := prev\<rparr>) s5) (\<lambda>s6.
            thenE (assign del (\<lambda>x. x\<lparr>isNodeActive := False\<rparr>) s6) (\<lambda>s7.
            thenE (lockCall CallReleaseExclusiveLock self prev s7) (\<lambda>s8.
            thenE (lockCall CallReleaseExclusiveLock self del s8) (\<lambda>s9.
            thenE (lockCall CallReleaseExclusiveLock self next' s9) (\<lambda>s10.
            Inr (result, s10)))))))))))
          else
            thenE (lockCall CallReleaseSharedLock self prev s1) (\<lambda>s2.
            thenE (lockCall CallReleaseSharedLock self next s2) (\<lambda>s3.
            Inr (result, s3)))))))"

text \<open>
  \<open>Search\<close>: the out-parameter \<open>char* data\<close> is \<open>None\<close> for \<open>nullptr\<close> and
  \<open>Some c\<close> for a pointer to a \<open>char\<close> holding \<open>c\<close>; its content after the call is
  returned with the result.
\<close>

definition Search ::
  "thread_id \<Rightarrow> int \<Rightarrow> char option \<Rightarrow> store \<Rightarrow> (fault + bool \<times> char option \<times> store) option" where
  "Search self k dataPtr s =
     (if dataPtr = None then Some (Inr (False, dataPtr, s))
      else case lockCall CallLockRead self (Some head) s of
        Inl e \<Rightarrow> Some (Inl e)
      | Inr s0 \<Rightarrow>
     (case FindKey self (Some head) k True s0 of
        None \<Rightarrow> None
      | Some (Inl e) \<Rightarrow> Some (Inl e)
      | Some (Inr (prev, node, s1)) \<Rightarrow> Some (
          thenE (deref node s1) (\<lambda>n.
          let result = (key n = k \<and> isNodeActive n \<and> node \<noteq> Some tail) in
          thenE (lockCall CallReleaseSharedLock self node s1) (\<lambda>s2.
          Inr (result, if result then Some (data n) else dataPtr, s2))))))"

declare FindKey_while.simps [code]
declare InsertTail_while.simps [code]

section \<open>Invariants of the lock\<close>

text \<open>
  The two facts about the writer flag: a writer excludes a may-writer, and a writer
  excludes readers.
\<close>

definition exclusive :: "Lock \<Rightarrow> bool" where
  "exclusive l = (\<not> (isWriterHolding l \<and> mayWriterThreadId l \<noteq> None) \<and>
                  (isWriterHolding l \<longrightarrow> readersNumber l = 0))"

text \<open>The condition variables of the queue entries, front first.\<close>

definition conditions :: "Lock \<Rightarrow> ConditionPtr list" where
  "conditions l = map fst (threadQueue l)"

text \<open>
  What holds of the lock and its sleeping threads in every state: the condition variables
  of the queue are distinct and were allocated before; a thread asleep in \<open>UpgradeLock\<close>
  owns the front entry, a WRITE entry, while nobody holds the lock as writer or may-writer,
  no thread asleep in \<open>Wait\<close> shares its condition variable, and no other thread is
  asleep in \<open>UpgradeLock\<close>.
\<close>

definition orderly :: "system \<Rightarrow> bool" where
  "orderly s =
     (exclusive (lockState s) \<and>
      distinct (conditions (lockState s)) \<and>
      (\<forall>c \<in> set (conditions (lockState s)). c < nextCondition s) \<and>
      (\<forall>t operation cp. asleep s t = Some (InWait operation cp) \<longrightarrow> cp < nextCondition s) \<and>
      (\<forall>u c. asleep s u = Some (InUpgradeLock c) \<longrightarrow>
         c < nextCondition s \<and> threadQueue (lockState s) \<noteq> [] \<and>
         fst (hd (threadQueue (lockState s))) = c \<and>
         fst (snd (hd (threadQueue (lockState s)))) = WRITE \<and>
         mayWriterThreadId (lockState s) = None \<and> \<not> isWriterHolding (lockState s) \<and>
         (\<forall>t operation cp. asleep s t = Some (InWait operation cp) \<longrightarrow> cp \<noteq> c) \<and>
         (\<forall>u' c'. asleep s u' = Some (InUpgradeLock c') \<longrightarrow> u' = u)))"

definition acquiring :: "lock_method \<Rightarrow> bool" where
  "acquiring m = (m = CallLockRead \<or> m = CallLockMayWrite \<or> m = CallLockWrite)"

section \<open>Invariants of the list\<close>

text \<open>The states of a node lock that one thread alone can bring about.\<close>

definition heldRead :: Lock where
  "heldRead = newLock\<lparr>readersNumber := 1\<rparr>"

definition heldMayWrite :: "thread_id \<Rightarrow> Lock" where
  "heldMayWrite self = newLock\<lparr>readersNumber := 1, mayWriterThreadId := Some self\<rparr>"

definition heldWrite :: Lock where
  "heldWrite = newLock\<lparr>isWriterHolding := True\<rparr>"

text \<open>The nodes \<open>h\<close> with the lock of node \<open>a\<close> replaced by \<open>f a\<close>.\<close>

definition locked :: "(nat \<Rightarrow> Lock) \<Rightarrow> Node list \<Rightarrow> Node list" where
  "locked f h = map (\<lambda>a. (h ! a)\<lparr>lock := f a\<rparr>) [0..<length h]"

text \<open>Consecutive nodes of the list are linked in both directions.\<close>

fun follows :: "Node list \<Rightarrow> nat list \<Rightarrow> bool" where
  "follows h (a # b # zs) =
     (nextPtr (h ! a) = Some b \<and> prevPtr (h ! b) = Some a \<and> follows h (b # zs))"
| "follows h zs = True"

text \<open>
  A list at rest whose internal nodes are \<open>xs\<close>, in order: the chain from \<open>head\<close>
  through \<open>xs\<close> to \<open>tail\<close> is linked in both directions and ends in null pointers, the
  nodes of the chain are distinct and active, the keys of \<open>xs\<close> increase strictly, and
  every lock is free.
\<close>

definition sortedList :: "Node list \<Rightarrow> nat list \<Rightarrow> bool" where
  "sortedList h xs =
     (2 \<le> length h \<and>
      (\<forall>a \<in> set xs. 2 \<le> a \<and> a < length h) \<and>
      distinct xs \<and>
      follows h (head # xs @ [tail]) \<and>
      prevPtr (h ! head) = None \<and> nextPtr (h ! tail) = None \<and>
      sorted_wrt (<) (map (\<lambda>a. key (h ! a)) xs) \<and>
      (\<forall>a \<in> set (head # xs @ [tail]). isNodeActive (h ! a)) \<and>
      (\<forall>a < length h. lock (h ! a) = newLock))"

section \<open>Sequences of list operations, chains and held locks\<close>

text \<open>
  A call of one of the four public methods, and a sequence of calls made one after the
  other by thread \<open>self\<close>. The sequence stops at the first call that does not return or
  ends in a fault.
\<close>

datatype list_call =
  CallInsertHead int char | CallInsertTail int char | CallDelete int | CallSearch int "char option"

fun perform :: "thread_id \<Rightarrow> list_call \<Rightarrow> store \<Rightarrow> (fault + store) option" where
  "perform self (CallInsertHead k v) s = map_option (map_sum id snd) (InsertHead self k v s)"
| "perform self (CallInsertTail k v) s = map_option (map_sum id snd) (InsertTail self k v s)"
| "perform self (CallDelete k) s = map_option (map_sum id snd) (Delete self k s)"
| "perform self (CallSearch k dataPtr) s =
     map_option (map_sum id (\<lambda>r. snd (snd r))) (Search self k dataPtr s)"

fun performAll :: "thread_id \<Rightarrow> list_call list \<Rightarrow> store \<Rightarrow> (fault + store) option" where
  "performAll self [] s = Some (Inr s)"
| "performAll self (c # cs) s =
     (case perform self c s of
        Some (Inr s') \<Rightarrow> performAll self cs s'
      | r \<Rightarrow> r)"

text \<open>
  The nodes met by following \<open>nextPtr\<close> from a node, at most \<open>n\<close> steps far; the
  next-chain of a store starts at \<open>head\<close> and has as many steps as the store has nodes.
\<close>

fun walk :: "Node list \<Rightarrow> nat \<Rightarrow> nat \<Rightarrow> nat list" where
  "walk h 0 a = [a]"
| "walk h (Suc n) a =
     (if a < length h
      then (case nextPtr (h ! a) of None \<Rightarrow> [a] | Some b \<Rightarrow> a # walk h n b)
      else [a])"

definition nextChain :: "Node list \<Rightarrow> nat list" where
  "nextChain h = walk h (length h) head"

text \<open>
  The node locks a thread holds after a sequence of its lock calls has returned, given
  the ones it held before.
\<close>

fun heldAfter :: "nat list \<Rightarrow> (lock_method \<times> nat) list \<Rightarrow> nat list" where
  "heldAfter held [] = held"
| "heldAfter held ((m, a) # cs) =
     heldAfter
       (case m of
          CallLockRead \<Rightarrow> a # held
        | CallLockMayWrite \<Rightarrow> a # held
        | CallLockWrite \<Rightarrow> a # held
        | CallUpgradeLock \<Rightarrow> held
        | CallReleaseSharedLock \<Rightarrow> remove1 a held
        | CallReleaseExclusiveLock \<Rightarrow> remove1 a held) cs"

section \<open>The lock: proofs\<close>

lemma ShouldThreadWait_Nil:
  "threadQueue l = [] \<Longrightarrow>
   ShouldThreadWait c operation l =
     (if CanAcquireLock operation l then Inr (False, l)
      else Inr (True, l\<lparr>threadQueue := [(c, operation, 1)]\<rparr>))"
  by (simp add: ShouldThreadWait_def InsertConditionTuple_def)

lemma ShouldThreadWait_snoc:
  "threadQueue l = xs @ [(c0, m, n)] \<Longrightarrow>
   ShouldThreadWait c operation l =
     (if operation = READ \<and> m = READ \<and> xs = [] \<and> CanAcquireLock operation l then Inr (False, l)
      else if operation = READ \<and> m = READ
           then (if 0 < n then Inr (True, l\<lparr>threadQueue := xs @ [(c0, READ, n + 1)]\<rparr>)
                 else Inl AssertionFailed)
      else Inr (True, l\<lparr>threadQueue := xs @ [(c0, m, n), (c, operation, 1)]\<rparr>))"
  by (cases xs) (auto simp: ShouldThreadWait_def InsertConditionTuple_def Let_def)

text \<open>What the first segment of an acquiring method does to the queue.\<close>

lemma Wait_Returned:
  assumes "Wait c operation l = Inr (Returned n l')"
  shows "l' = l \<and> n = None \<and> CanAcquireLock operation l \<and>
         (threadQueue l \<noteq> [] \<longrightarrow> fst (snd (hd (threadQueue l))) = READ)"
proof (cases "threadQueue l" rule: rev_cases)
  case Nil
  with assms show ?thesis
    by (auto simp: Wait_def ShouldThreadWait_Nil split: if_splits)
next
  case (snoc xs x)
  obtain c0 m k where x: "x = (c0, m, k)" by (cases x)
  with snoc assms show ?thesis
    by (auto simp: Wait_def ShouldThreadWait_snoc split: if_splits)
qed

lemma Wait_Waiting:
  assumes "Wait c operation l = Inr (Waiting cp l')"
  shows "readersNumber l' = readersNumber l \<and> isWriterHolding l' = isWriterHolding l \<and>
         mayWriterThreadId l' = mayWriterThreadId l \<and> threadQueue l' \<noteq> [] \<and>
         ((conditions l' = conditions l @ [c] \<and> cp = c) \<or>
          (conditions l' = conditions l \<and> threadQueue l \<noteq> [] \<and>
           cp = fst (last (threadQueue l)) \<and> cp \<in> set (conditions l) \<and>
           fst (snd (last (threadQueue l))) = READ)) \<and>
         (threadQueue l \<noteq> [] \<longrightarrow>
            fst (hd (threadQueue l')) = fst (hd (threadQueue l)) \<and>
            fst (snd (hd (threadQueue l'))) = fst (snd (hd (threadQueue l))))"
proof (cases "threadQueue l" rule: rev_cases)
  case Nil
  with assms show ?thesis
    by (auto simp: Wait_def ShouldThreadWait_Nil conditions_def split: if_splits)
next
  case (snoc xs x)
  obtain c0 m k where x: "x = (c0, m, k)" by (cases x)
  with snoc assms show ?thesis
    by (cases xs) (auto simp: Wait_def ShouldThreadWait_snoc conditions_def split: if_splits)
qed


lemmas lock_defs = CanReaderAcquireLock_def CanMayWriterAcquireLock_def CanWriterAcquireLock_def
  InsertConditionTuple_def Wait_wake_def
  LockRead_acquire_def LockMayWrite_acquire_def LockWrite_acquire_def afterWait_def
  LockRead_def LockRead_wake_def LockMayWrite_def LockMayWrite_wake_def LockWrite_def LockWrite_wake_def
  UpgradeLock_def UpgradeLock_wake_def ReleaseSharedLock_def ReleaseExclusiveLock_def

lemma afterWait_Returned:
  "afterWait f r = Inr (Returned n l') \<longleftrightarrow> (\<exists>l0. r = Inr (Returned n l0) \<and> f l0 = Inr l')"
  by (auto simp: afterWait_def split: sum.splits outcome.splits)

lemma afterWait_Waiting:
  "afterWait f r = Inr (Waiting cp l') \<longleftrightarrow> r = Inr (Waiting cp l')"
  by (auto simp: afterWait_def split: sum.splits outcome.splits)

lemma acquire_Returned:
  assumes "acquiring m" "lockMethod m t c l = Inr (Returned n l')"
  shows "threadQueue l' = threadQueue l \<and>
         (threadQueue l \<noteq> [] \<longrightarrow> fst (snd (hd (threadQueue l))) = READ)"
  using assms
  by (auto simp: acquiring_def lockMethod_def LockRead_def LockMayWrite_def LockWrite_def
        afterWait_Returned LockRead_acquire_def LockMayWrite_acquire_def LockWrite_acquire_def
        Let_def dest!: Wait_Returned split: if_splits)

lemma acquire_Waiting:
  assumes "acquiring m" "lockMethod m t c l = Inr (Waiting cp l')"
  shows "readersNumber l' = readersNumber l \<and> isWriterHolding l' = isWriterHolding l \<and>
         mayWriterThreadId l' = mayWriterThreadId l \<and> threadQueue l' \<noteq> [] \<and>
         ((conditions l' = conditions l @ [c] \<and> cp = c) \<or>
          (conditions l' = conditions l \<and> threadQueue l \<noteq> [] \<and>
           cp = fst (last (threadQueue l)) \<and> cp \<in> set (conditions l) \<and>
           fst (snd (last (threadQueue l))) = READ)) \<and>
         (threadQueue l \<noteq> [] \<longrightarrow>
            fst (hd (threadQueue l')) = fst (hd (threadQueue l)) \<and>
            fst (snd (hd (threadQueue l'))) = fst (snd (hd (threadQueue l))))"
proof -
  from assms obtain operation where "Wait c operation l = Inr (Waiting cp l')"
    by (auto simp: acquiring_def lockMethod_def LockRead_def LockMayWrite_def LockWrite_def
          afterWait_Waiting)
  then show ?thesis by (rule Wait_Waiting)
qed

lemma sleepingIn_acquiring:
  "acquiring m \<Longrightarrow> \<exists>operation. sleepingIn m cp = InWait operation cp"
  by (auto simp: acquiring_def sleepingIn_def)

lemma last_eq_hd:
  assumes "distinct (map fst q)" "q \<noteq> []" "fst (last q) = fst (hd q)"
  shows "last q = hd q"
proof (cases q)
  case Nil
  with assms show ?thesis by simp
next
  case (Cons x xs)
  show ?thesis
  proof (cases "xs = []")
    case True
    with Cons show ?thesis by simp
  next
    case False
    then have "last xs \<in> set xs" by simp
    then have "fst (last xs) \<in> fst ` set xs" by (rule imageI)
    with Cons assms False show ?thesis by auto
  qed
qed

lemma step_Call:
  assumes "step (Call m t) s = Some s'"
  shows "asleep s t = None \<and>
    (\<exists>r. lockMethod m t (nextCondition s) (lockState s) = Inr r \<and>
       nextCondition s' = nextCondition s + 1 \<and>
       (case r of
          Returned n l' \<Rightarrow> lockState s' = l' \<and> asleep s' = (asleep s)(t := None)
        | Waiting cp l' \<Rightarrow> lockState s' = l' \<and> asleep s' = (asleep s)(t := Some (sleepingIn m cp))))"
  using assms
  by (auto simp: settle_def split: option.splits sum.splits outcome.splits)

lemma step_WakeUp:
  assumes "step (WakeUp t) s = Some s'"
  shows "\<exists>w r. asleep s t = Some w \<and> wakeMethod w t (lockState s) = Inr r \<and>
       nextCondition s' = nextCondition s \<and>
       (case r of
          Returned n l' \<Rightarrow> lockState s' = l' \<and> asleep s' = (asleep s)(t := None)
        | Waiting cp l' \<Rightarrow> lockState s' = l' \<and> asleep s' = (asleep s)(t := Some w))"
  using assms
  by (auto simp: settle_def split: option.splits sum.splits outcome.splits)


lemma lockMethod_exclusive:
  assumes "exclusive l" "lockMethod m t c l = Inr r"
  shows "exclusive (case r of Returned n l' \<Rightarrow> l' | Waiting cp l' \<Rightarrow> l')"
  using assms
  by (cases m)
     (auto simp: exclusive_def lockMethod_def lock_defs ShouldThreadWait_def Wait_def Let_def
           split: if_splits sum.splits prod.splits outcome.splits list.splits)

lemma wakeMethod_exclusive:
  assumes "exclusive l" "wakeMethod w t l = Inr r"
  shows "exclusive (case r of Returned n l' \<Rightarrow> l' | Waiting cp l' \<Rightarrow> l')"
  using assms
  by (cases w)
     (auto simp: exclusive_def wakeMethod_def lock_defs Let_def
           split: if_splits sum.splits prod.splits outcome.splits list.splits Operation.splits)

lemma orderlyI:
  assumes "exclusive (lockState s)"
    and "distinct (conditions (lockState s))"
    and "\<And>c. c \<in> set (conditions (lockState s)) \<Longrightarrow> c < nextCondition s"
    and "\<And>t operation cp. asleep s t = Some (InWait operation cp) \<Longrightarrow> cp < nextCondition s"
    and "\<And>u c. asleep s u = Some (InUpgradeLock c) \<Longrightarrow>
         c < nextCondition s \<and> threadQueue (lockState s) \<noteq> [] \<and>
         fst (hd (threadQueue (lockState s))) = c \<and>
         fst (snd (hd (threadQueue (lockState s)))) = WRITE \<and>
         mayWriterThreadId (lockState s) = None \<and> \<not> isWriterHolding (lockState s) \<and>
         (\<forall>t operation cp. asleep s t = Some (InWait operation cp) \<longrightarrow> cp \<noteq> c) \<and>
         (\<forall>u' c'. asleep s u' = Some (InUpgradeLock c') \<longrightarrow> u' = u)"
  shows "orderly s"
  unfolding orderly_def using assms by blast

lemma orderlyD:
  assumes "orderly s"
  shows "exclusive (lockState s)"
    and "distinct (conditions (lockState s))"
    and "\<And>c. c \<in> set (conditions (lockState s)) \<Longrightarrow> c < nextCondition s"
    and "\<And>t operation cp. asleep s t = Some (InWait operation cp) \<Longrightarrow> cp < nextCondition s"
    and "\<And>u c. asleep s u = Some (InUpgradeLock c) \<Longrightarrow>
         c < nextCondition s \<and> threadQueue (lockState s) \<noteq> [] \<and>
         fst (hd (threadQueue (lockState s))) = c \<and>
         fst (snd (hd (threadQueue (lockState s)))) = WRITE \<and>
         mayWriterThreadId (lockState s) = None \<and> \<not> isWriterHolding (lockState s) \<and>
         (\<forall>t operation cp. asleep s t = Some (InWait operation cp) \<longrightarrow> cp \<noteq> c) \<and>
         (\<forall>u' c'. asleep s u' = Some (InUpgradeLock c') \<longrightarrow> u' = u)"
  using assms unfolding orderly_def by blast+

lemma orderly_acquire:
  assumes inv: "orderly s" and m: "acquiring m" and st: "step (Call m t) s = Some s'"
  shows "orderly s'"
proof -
  from step_Call [OF st] obtain r where t: "asleep s t = None"
    and r: "lockMethod m t (nextCondition s) (lockState s) = Inr r"
    and nc: "nextCondition s' = nextCondition s + 1"
    and s': "case r of
          Returned n l' \<Rightarrow> lockState s' = l' \<and> asleep s' = (asleep s)(t := None)
        | Waiting cp l' \<Rightarrow> lockState s' = l' \<and> asleep s' = (asleep s)(t := Some (sleepingIn m cp))"
    by blast
  note ex' = lockMethod_exclusive [OF orderlyD(1) [OF inv] r]
  note I = orderlyD [OF inv]
  show ?thesis
  proof (cases r)
    case (Returned n l')
    with s' have l': "lockState s' = l'" and a': "asleep s' = (asleep s)(t := None)" by simp_all
    from acquire_Returned [OF m r [unfolded Returned]]
    have q: "threadQueue l' = threadQueue (lockState s)"
      and front: "threadQueue (lockState s) \<noteq> [] \<longrightarrow> fst (snd (hd (threadQueue (lockState s)))) = READ"
      by simp_all
    from I(5) front have none: "asleep s u \<noteq> Some (InUpgradeLock c)" for u c
      by fastforce
    show ?thesis
    proof (rule orderlyI)
      show "exclusive (lockState s')" using ex' Returned l' by simp
      show "distinct (conditions (lockState s'))" using I(2) by (simp add: l' q conditions_def)
      show "c < nextCondition s'" if "c \<in> set (conditions (lockState s'))" for c
        using I(3) [of c] that by (simp add: l' q nc conditions_def)
      show "cp < nextCondition s'" if "asleep s' t' = Some (InWait operation cp)" for t' operation cp
        using I(4) [of t' operation cp] that by (simp add: a' nc split: if_splits)
      show "c < nextCondition s' \<and> threadQueue (lockState s') \<noteq> [] \<and>
         fst (hd (threadQueue (lockState s'))) = c \<and>
         fst (snd (hd (threadQueue (lockState s')))) = WRITE \<and>
         mayWriterThreadId (lockState s') = None \<and> \<not> isWriterHolding (lockState s') \<and>
         (\<forall>t operation cp. asleep s' t = Some (InWait operation cp) \<longrightarrow> cp \<noteq> c) \<and>
         (\<forall>u' c'. asleep s' u' = Some (InUpgradeLock c') \<longrightarrow> u' = u)"
        if "asleep s' u = Some (InUpgradeLock c)" for u c
        using that none [of u c] by (simp add: a' split: if_splits)
    qed
  next
    case (Waiting cp l')
    with s' have l': "lockState s' = l'"
      and a': "asleep s' = (asleep s)(t := Some (sleepingIn m cp))" by simp_all
    from sleepingIn_acquiring [OF m] obtain operation where sl: "sleepingIn m cp = InWait operation cp"
      by blast
    note w = acquire_Waiting [OF m r [unfolded Waiting]]
    have lt0: "\<forall>c \<in> set (conditions (lockState s)). c < nextCondition s"
      using I(3) by blast
    then have nin: "nextCondition s \<notin> set (conditions (lockState s))"
      by blast
    from w have "conditions l' = conditions (lockState s) @ [nextCondition s]
        \<or> conditions l' = conditions (lockState s)" by blast
    then have d: "distinct (conditions l')"
      and lt: "\<And>c. c \<in> set (conditions l') \<Longrightarrow> c < nextCondition s + 1"
      using I(2) lt0 nin by (auto simp: less_Suc_eq)
    have cp: "cp < nextCondition s + 1"
    proof -
      from w have "cp = nextCondition s \<or> cp \<in> set (conditions (lockState s))"
        by blast
      with I(3) [of cp] show ?thesis by auto
    qed
    have up: "cp \<noteq> c" if "asleep s u = Some (InUpgradeLock c)" for u c
    proof
      assume "cp = c"
      from I(5) [OF that] have c: "c < nextCondition s" "threadQueue (lockState s) \<noteq> []"
        "fst (hd (threadQueue (lockState s))) = c" "fst (snd (hd (threadQueue (lockState s)))) = WRITE"
        by simp_all
      from w \<open>cp = c\<close> c have "fst (last (threadQueue (lockState s))) = fst (hd (threadQueue (lockState s)))"
        and rd: "fst (snd (last (threadQueue (lockState s)))) = READ"
        by auto
      with I(2) c have "last (threadQueue (lockState s)) = hd (threadQueue (lockState s))"
        by (intro last_eq_hd) (simp_all add: conditions_def)
      with rd c show False by simp
    qed
    show ?thesis
    proof (rule orderlyI)
      show "exclusive (lockState s')" using ex' Waiting l' by simp
      show "distinct (conditions (lockState s'))" using d by (simp add: l')
      show "c < nextCondition s'" if "c \<in> set (conditions (lockState s'))" for c
        using lt [of c] that by (simp add: l' nc)
      show "cp' < nextCondition s'" if "asleep s' t' = Some (InWait operation' cp')" for t' operation' cp'
        using I(4) [of t' operation' cp'] that cp by (auto simp: a' nc sl split: if_splits)
      show "c < nextCondition s' \<and> threadQueue (lockState s') \<noteq> [] \<and>
         fst (hd (threadQueue (lockState s'))) = c \<and>
         fst (snd (hd (threadQueue (lockState s')))) = WRITE \<and>
         mayWriterThreadId (lockState s') = None \<and> \<not> isWriterHolding (lockState s') \<and>
         (\<forall>t operation cp. asleep s' t = Some (InWait operation cp) \<longrightarrow> cp \<noteq> c) \<and>
         (\<forall>u' c'. asleep s' u' = Some (InUpgradeLock c') \<longrightarrow> u' = u)"
        if "asleep s' u = Some (InUpgradeLock c)" for u c
      proof -
        from that have u: "asleep s u = Some (InUpgradeLock c)" "u \<noteq> t"
          by (auto simp: a' sl split: if_splits)
        from I(5) [OF u(1)] w up [OF u(1)] show ?thesis
          by (auto simp: a' l' nc sl)
      qed
    qed
  qed
qed


lemma upgrade_outcome:
  assumes "lockMethod CallUpgradeLock t c l = Inr r"
  shows "mayWriterThreadId l = Some t \<and>
    (case r of
       Returned n l' \<Rightarrow> threadQueue l' = threadQueue l
     | Waiting cp l' \<Rightarrow> cp = c \<and> threadQueue l' = (c, WRITE, 1) # threadQueue l \<and>
         mayWriterThreadId l' = None \<and> isWriterHolding l' = isWriterHolding l)"
  using assms
  by (auto simp: lockMethod_def UpgradeLock_def afterWait_def LockWrite_acquire_def
        InsertConditionTuple_def Let_def split: if_splits outcome.splits)

lemma release_outcome:
  assumes "lockMethod m t c l = Inr r" "m = CallReleaseSharedLock \<or> m = CallReleaseExclusiveLock"
  shows "\<exists>n l'. r = Returned n l' \<and> threadQueue l' = threadQueue l \<and>
           (mayWriterThreadId l = None \<longrightarrow> mayWriterThreadId l' = None) \<and>
           (m = CallReleaseSharedLock \<longrightarrow> isWriterHolding l' = isWriterHolding l) \<and>
           (m = CallReleaseExclusiveLock \<longrightarrow> isWriterHolding l)"
  using assms
  by (auto simp: lockMethod_def ReleaseSharedLock_def ReleaseExclusiveLock_def Let_def
        split: if_splits)

lemma Wait_wake_outcome:
  assumes "afterWait f (Wait_wake cp operation l) = Inr r"
    and "\<And>x y. f x = Inr y \<Longrightarrow> threadQueue y = threadQueue x"
  shows "case r of
       Returned n l' \<Rightarrow> threadQueue l \<noteq> [] \<and> fst (hd (threadQueue l)) = cp \<and>
          (conditions l' = conditions l \<or> conditions l' = tl (conditions l))
     | Waiting cp' l' \<Rightarrow> cp' = cp \<and> l' = l"
proof (cases "threadQueue l")
  case Nil
  with assms(1) show ?thesis by (simp add: Wait_wake_def afterWait_def)
next
  case (Cons x xs)
  obtain c0 m k where x: "x = (c0, m, k)" by (cases x)
  show ?thesis
  proof (cases r)
    case (Waiting cp' l')
    with assms(1) Cons x show ?thesis
      by (auto simp: afterWait_Waiting Wait_wake_def split: if_splits)
  next
    case (Returned n l')
    with assms(1) obtain l0 where l0: "Wait_wake cp operation l = Inr (Returned n l0)"
      and f: "f l0 = Inr l'"
      by (auto simp: afterWait_Returned)
    from assms(2) [OF f] have q: "threadQueue l' = threadQueue l0" .
    from l0 Cons x Returned show ?thesis
      by (auto simp: Wait_wake_def conditions_def q split: if_splits)
  qed
qed

lemma wake_InWait_outcome:
  assumes "wakeMethod (InWait operation cp) t l = Inr r"
  shows "case r of
       Returned n l' \<Rightarrow> threadQueue l \<noteq> [] \<and> fst (hd (threadQueue l)) = cp \<and>
          (conditions l' = conditions l \<or> conditions l' = tl (conditions l))
     | Waiting cp' l' \<Rightarrow> cp' = cp \<and> l' = l"
proof (cases operation)
  case READ
  with assms show ?thesis
    by (intro Wait_wake_outcome [where f = LockRead_acquire and operation = READ])
       (auto simp: wakeMethod_def LockRead_wake_def LockRead_acquire_def)
next
  case MAY_WRITE
  with assms show ?thesis
    by (intro Wait_wake_outcome [where f = "LockMayWrite_acquire t" and operation = MAY_WRITE])
       (auto simp: wakeMethod_def LockMayWrite_wake_def LockMayWrite_acquire_def Let_def
             split: if_splits)
next
  case WRITE
  with assms show ?thesis
    by (intro Wait_wake_outcome [where f = LockWrite_acquire and operation = WRITE])
       (auto simp: wakeMethod_def LockWrite_wake_def LockWrite_acquire_def split: if_splits)
qed

lemma wake_InUpgradeLock_outcome:
  assumes "wakeMethod (InUpgradeLock cp) t l = Inr r"
  shows "case r of
       Returned n l' \<Rightarrow> threadQueue l \<noteq> [] \<and> threadQueue l' = tl (threadQueue l) \<and>
          readersNumber l = 0 \<and> isWriterHolding l'
     | Waiting cp' l' \<Rightarrow> cp' = cp \<and> l' = l"
  using assms
  by (auto simp: wakeMethod_def UpgradeLock_wake_def afterWait_def LockWrite_acquire_def
        CanWriterAcquireLock_def split: if_splits list.splits outcome.splits)


lemma orderly_upgrade:
  assumes inv: "orderly s" and st: "step (Call CallUpgradeLock t) s = Some s'"
  shows "orderly s'"
proof -
  from step_Call [OF st] obtain r where t: "asleep s t = None"
    and r: "lockMethod CallUpgradeLock t (nextCondition s) (lockState s) = Inr r"
    and nc: "nextCondition s' = nextCondition s + 1"
    and s': "case r of
          Returned n l' \<Rightarrow> lockState s' = l' \<and> asleep s' = (asleep s)(t := None)
        | Waiting cp l' \<Rightarrow> lockState s' = l' \<and>
            asleep s' = (asleep s)(t := Some (sleepingIn CallUpgradeLock cp))"
    by blast
  note I = orderlyD [OF inv]
  note ex' = lockMethod_exclusive [OF I(1) r]
  note u = upgrade_outcome [OF r]
  from u I(5) have none: "asleep s u \<noteq> Some (InUpgradeLock c)" for u c
    by fastforce
  have lt0: "\<forall>c \<in> set (conditions (lockState s)). c < nextCondition s"
    using I(3) by blast
  then have nin: "nextCondition s \<notin> set (conditions (lockState s))"
    by blast
  show ?thesis
  proof (cases r)
    case (Returned n l')
    with s' have l': "lockState s' = l'" and a': "asleep s' = (asleep s)(t := None)" by simp_all
    from u Returned have q: "threadQueue l' = threadQueue (lockState s)" by simp
    show ?thesis
    proof (rule orderlyI)
      show "exclusive (lockState s')" using ex' Returned l' by simp
      show "distinct (conditions (lockState s'))" using I(2) by (simp add: l' q conditions_def)
      show "c < nextCondition s'" if "c \<in> set (conditions (lockState s'))" for c
        using I(3) [of c] that by (simp add: l' q nc conditions_def)
      show "cp < nextCondition s'" if "asleep s' t' = Some (InWait operation cp)" for t' operation cp
        using I(4) [of t' operation cp] that by (simp add: a' nc split: if_splits)
      show "c < nextCondition s' \<and> threadQueue (lockState s') \<noteq> [] \<and>
         fst (hd (threadQueue (lockState s'))) = c \<and>
         fst (snd (hd (threadQueue (lockState s')))) = WRITE \<and>
         mayWriterThreadId (lockState s') = None \<and> \<not> isWriterHolding (lockState s') \<and>
         (\<forall>t operation cp. asleep s' t = Some (InWait operation cp) \<longrightarrow> cp \<noteq> c) \<and>
         (\<forall>u' c'. asleep s' u' = Some (InUpgradeLock c') \<longrightarrow> u' = u)"
        if "asleep s' u = Some (InUpgradeLock c)" for u c
        using that none [of u c] by (simp add: a' split: if_splits)
    qed
  next
    case (Waiting cp l')
    with s' have l': "lockState s' = l'"
      and a': "asleep s' = (asleep s)(t := Some (InUpgradeLock cp))"
      by (simp_all add: sleepingIn_def)
    from u Waiting have cp: "cp = nextCondition s"
      and q: "threadQueue l' = (nextCondition s, WRITE, 1) # threadQueue (lockState s)"
      and mw: "mayWriterThreadId l' = None" "mayWriterThreadId (lockState s) = Some t"
      and wr: "isWriterHolding l' = isWriterHolding (lockState s)"
      by simp_all
    from I(1) mw have nw: "\<not> isWriterHolding (lockState s)" by (auto simp: exclusive_def)
    have cs: "conditions l' = nextCondition s # conditions (lockState s)"
      by (simp add: conditions_def q)
    show ?thesis
    proof (rule orderlyI)
      show "exclusive (lockState s')" using ex' Waiting l' by simp
      show "distinct (conditions (lockState s'))" using I(2) nin by (simp add: l' cs)
      show "c < nextCondition s'" if "c \<in> set (conditions (lockState s'))" for c
        using lt0 that by (auto simp: l' cs nc)
      show "cp' < nextCondition s'" if "asleep s' t' = Some (InWait operation' cp')" for t' operation' cp'
        using I(4) [of t' operation' cp'] that by (auto simp: a' nc split: if_splits)
      show "c < nextCondition s' \<and> threadQueue (lockState s') \<noteq> [] \<and>
         fst (hd (threadQueue (lockState s'))) = c \<and>
         fst (snd (hd (threadQueue (lockState s')))) = WRITE \<and>
         mayWriterThreadId (lockState s') = None \<and> \<not> isWriterHolding (lockState s') \<and>
         (\<forall>t operation cp. asleep s' t = Some (InWait operation cp) \<longrightarrow> cp \<noteq> c) \<and>
         (\<forall>u' c'. asleep s' u' = Some (InUpgradeLock c') \<longrightarrow> u' = u)"
        if "asleep s' u = Some (InUpgradeLock c)" for u c
      proof -
        from that none have u: "u = t" "c = nextCondition s"
          by (auto simp: a' cp split: if_splits)
        have "cp' \<noteq> nextCondition s" if "asleep s t' = Some (InWait operation' cp')" for t' operation' cp'
          using I(4) [OF that] by simp
        with none show ?thesis
          by (auto simp: u a' l' q nc mw wr nw)
      qed
    qed
  qed
qed

lemma orderly_release:
  assumes inv: "orderly s" and st: "step (Call m t) s = Some s'"
    and m: "m = CallReleaseSharedLock \<or> m = CallReleaseExclusiveLock"
  shows "orderly s'"
proof -
  from step_Call [OF st] obtain r where t: "asleep s t = None"
    and r: "lockMethod m t (nextCondition s) (lockState s) = Inr r"
    and nc: "nextCondition s' = nextCondition s + 1"
    and s': "case r of
          Returned n l' \<Rightarrow> lockState s' = l' \<and> asleep s' = (asleep s)(t := None)
        | Waiting cp l' \<Rightarrow> lockState s' = l' \<and>
            asleep s' = (asleep s)(t := Some (sleepingIn m cp))"
    by blast
  note I = orderlyD [OF inv]
  note ex' = lockMethod_exclusive [OF I(1) r]
  from release_outcome [OF r m] obtain n l' where Returned: "r = Returned n l'"
    and q: "threadQueue l' = threadQueue (lockState s)"
    and mw: "mayWriterThreadId (lockState s) = None \<longrightarrow> mayWriterThreadId l' = None"
    and wr: "m = CallReleaseSharedLock \<longrightarrow> isWriterHolding l' = isWriterHolding (lockState s)"
      "m = CallReleaseExclusiveLock \<longrightarrow> isWriterHolding (lockState s)"
    by metis
  with s' have l': "lockState s' = l'" and a': "asleep s' = (asleep s)(t := None)" by simp_all
  have a: "asleep s' = asleep s" using t by (auto simp: a')
  show ?thesis
  proof (rule orderlyI)
    show "exclusive (lockState s')" using ex' Returned l' by simp
    show "distinct (conditions (lockState s'))" using I(2) by (simp add: l' q conditions_def)
    show "c < nextCondition s'" if "c \<in> set (conditions (lockState s'))" for c
      using I(3) [of c] that by (simp add: l' q nc conditions_def)
    show "cp < nextCondition s'" if "asleep s' t' = Some (InWait operation cp)" for t' operation cp
      using I(4) [of t' operation cp] that by (simp add: a nc)
    show "c < nextCondition s' \<and> threadQueue (lockState s') \<noteq> [] \<and>
         fst (hd (threadQueue (lockState s'))) = c \<and>
         fst (snd (hd (threadQueue (lockState s')))) = WRITE \<and>
         mayWriterThreadId (lockState s') = None \<and> \<not> isWriterHolding (lockState s') \<and>
         (\<forall>t operation cp. asleep s' t = Some (InWait operation cp) \<longrightarrow> cp \<noteq> c) \<and>
         (\<forall>u' c'. asleep s' u' = Some (InUpgradeLock c') \<longrightarrow> u' = u)"
      if "asleep s' u = Some (InUpgradeLock c)" for u c
      using I(5) [of u c] that m mw wr by (auto simp: a l' q nc)
  qed
qed

lemma orderly_wake:
  assumes inv: "orderly s" and st: "step (WakeUp t) s = Some s'"
  shows "orderly s'"
proof -
  from step_WakeUp [OF st] obtain w r where t: "asleep s t = Some w"
    and r: "wakeMethod w t (lockState s) = Inr r"
    and nc: "nextCondition s' = nextCondition s"
    and s': "case r of
          Returned n l' \<Rightarrow> lockState s' = l' \<and> asleep s' = (asleep s)(t := None)
        | Waiting cp l' \<Rightarrow> lockState s' = l' \<and> asleep s' = (asleep s)(t := Some w)"
    by blast
  note I = orderlyD [OF inv]
  note ex' = wakeMethod_exclusive [OF I(1) r]
  show ?thesis
  proof (cases r)
    case (Waiting cp l')
    have "l' = lockState s"
      using r Waiting wake_InWait_outcome [of _ _ t "lockState s" r]
        wake_InUpgradeLock_outcome [of _ t "lockState s" r]
      by (cases w) auto
    moreover have "asleep s' = asleep s" using s' Waiting t by auto
    ultimately have "s' = s" using s' Waiting nc by simp
    with inv show ?thesis by simp
  next
    case (Returned n l')
    with s' have l': "lockState s' = l'" and a': "asleep s' = (asleep s)(t := None)" by simp_all
    have none: "asleep s' u \<noteq> Some (InUpgradeLock c)" for u c
    proof (cases w)
      case (InWait operation cp)
      with r Returned wake_InWait_outcome [of operation cp t "lockState s" r]
      have "fst (hd (threadQueue (lockState s))) = cp" by simp
      with I(5) t InWait have "asleep s u \<noteq> Some (InUpgradeLock c)" by fastforce
      with t InWait show ?thesis by (simp add: a')
    next
      case (InUpgradeLock cp)
      with I(5) [of t cp] t show ?thesis by (auto simp: a')
    qed
    have cs: "conditions l' = conditions (lockState s) \<or> conditions l' = tl (conditions (lockState s))"
      using r Returned wake_InWait_outcome [of _ _ t "lockState s" r]
        wake_InUpgradeLock_outcome [of _ t "lockState s" r]
      by (cases w) (auto simp: conditions_def map_tl)
    have sub: "set (conditions l') \<subseteq> set (conditions (lockState s))"
    proof
      fix x assume "x \<in> set (conditions l')"
      with cs show "x \<in> set (conditions (lockState s))"
        by (cases "conditions (lockState s)") auto
    qed
    show ?thesis
    proof (rule orderlyI)
      show "exclusive (lockState s')" using ex' Returned l' by simp
      show "distinct (conditions (lockState s'))" using I(2) cs by (auto simp: l' distinct_tl)
      show "c < nextCondition s'" if "c \<in> set (conditions (lockState s'))" for c
        using I(3) [of c] that sub by (auto simp: l' nc)
      show "cp < nextCondition s'" if "asleep s' t' = Some (InWait operation cp)" for t' operation cp
        using I(4) [of t' operation cp] that by (simp add: a' nc split: if_splits)
      show "c < nextCondition s' \<and> threadQueue (lockState s') \<noteq> [] \<and>
         fst (hd (threadQueue (lockState s'))) = c \<and>
         fst (snd (hd (threadQueue (lockState s')))) = WRITE \<and>
         mayWriterThreadId (lockState s') = None \<and> \<not> isWriterHolding (lockState s') \<and>
         (\<forall>t operation cp. asleep s' t = Some (InWait operation cp) \<longrightarrow> cp \<noteq> c) \<and>
         (\<forall>u' c'. asleep s' u' = Some (InUpgradeLock c') \<longrightarrow> u' = u)"
        if "asleep s' u = Some (InUpgradeLock c)" for u c
        using that none [of u c] by simp
    qed
  qed
qed

lemma step_orderly:
  assumes "orderly s" "step e s = Some s'"
  shows "orderly s'"
proof (cases e)
  case (Call m t)
  with assms show ?thesis
    by (cases m) (auto intro: orderly_acquire orderly_upgrade orderly_release simp: acquiring_def)
next
  case (WakeUp t)
  with assms show ?thesis by (auto intro: orderly_wake)
qed

lemma run_orderly:
  "orderly s \<Longrightarrow> run es s = Some s' \<Longrightarrow> orderly s'"
  by (induction es arbitrary: s) (auto split: option.splits dest: step_orderly)

lemma orderly_initial: "orderly initial"
  by (simp add: orderly_def initial_def newLock_def exclusive_def conditions_def)

lemmas eval_defs = initial_def newLock_def settle_def lockMethod_def wakeMethod_def sleepingIn_def
  LockRead_def LockMayWrite_def LockWrite_def UpgradeLock_def ReleaseSharedLock_def
  ReleaseExclusiveLock_def LockRead_wake_def LockMayWrite_wake_def LockWrite_wake_def
  UpgradeLock_wake_def afterWait_def Wait_def Wait_wake_def ShouldThreadWait_def
  InsertConditionTuple_def TryNotifyingNext_def LockRead_acquire_def LockMayWrite_acquire_def
  LockWrite_acquire_def CanReaderAcquireLock_def CanMayWriterAcquireLock_def
  CanWriterAcquireLock_def Let_def

section \<open>The list: proofs\<close>

lemma thenE_simps [simp]:
  "thenE (Inl e) f = Inl e"
  "thenE (Inr x) f = f x"
  by (simp_all add: thenE_def)

lemma head_neq_tail [simp]: "head \<noteq> tail" "tail \<noteq> head"
  by (simp_all add: head_def tail_def)

lemma newNode_simps [simp]:
  "key (newNode k v p n) = k" "data (newNode k v p n) = v" "prevPtr (newNode k v p n) = p"
  "nextPtr (newNode k v p n) = n" "isNodeActive (newNode k v p n)" "lock (newNode k v p n) = newLock"
  by (simp_all add: newNode_def)

lemma length_locked [simp]: "length (locked f h) = length h"
  by (simp add: locked_def)

lemma nth_locked [simp]: "a < length h \<Longrightarrow> locked f h ! a = (h ! a)\<lparr>lock := f a\<rparr>"
  by (simp add: locked_def)

lemma locked_cong: "(\<And>a. a < length h \<Longrightarrow> f a = g a) \<Longrightarrow> locked f h = locked g h"
  by (simp add: locked_def)

lemma locked_id: "(\<And>a. a < length h \<Longrightarrow> f a = lock (h ! a)) \<Longrightarrow> locked f h = h"
  by (rule nth_equalityI) simp_all

lemma locked_update_lock:
  "a < length h \<Longrightarrow> (locked f h)[a := (locked f h ! a)\<lparr>lock := l\<rparr>] = locked (f(a := l)) h"
  by (rule nth_equalityI) (simp_all add: nth_list_update)

lemma locked_update_field:
  assumes "a < length h" "\<And>n l. g (n\<lparr>lock := l\<rparr>) = (g n)\<lparr>lock := l\<rparr>"
  shows "(locked f h)[a := g (locked f h ! a)] = locked f (h[a := g (h ! a)])"
  by (rule nth_equalityI) (simp_all add: nth_list_update assms)

lemma locked_append:
  "locked f h @ [n] = locked (f(length h := lock n)) (h @ [n])"
  by (rule nth_equalityI) (auto simp: nth_append less_Suc_eq)

lemma lockMethod_single:
  "lockMethod CallLockRead self c newLock = Inr (Returned None heldRead)"
  "lockMethod CallLockMayWrite self c newLock = Inr (Returned None (heldMayWrite self))"
  "lockMethod CallLockWrite self c newLock = Inr (Returned None heldWrite)"
  "lockMethod CallUpgradeLock self c (heldMayWrite self) = Inr (Returned None heldWrite)"
  "lockMethod CallReleaseSharedLock self c heldRead = Inr (Returned None newLock)"
  "lockMethod CallReleaseSharedLock self c (heldMayWrite self) = Inr (Returned None newLock)"
  "lockMethod CallReleaseExclusiveLock self c heldWrite = Inr (Returned None newLock)"
  by (simp_all add: eval_defs heldRead_def heldMayWrite_def heldWrite_def)

lemma deref_locked:
  "nodes s = locked f h \<Longrightarrow> a < length h \<Longrightarrow> deref (Some a) s = Inr ((h ! a)\<lparr>lock := f a\<rparr>)"
  by (simp add: deref_def)

lemma lockCall_locked:
  assumes "nodes s = locked f h" "a < length h"
    and "lockMethod m self 0 (f a) = Inr (Returned n l')"
  shows "lockCall m self (Some a) s =
         Inr (s\<lparr>nodes := locked (f(a := l')) h, lockCalls := lockCalls s @ [(m, a)]\<rparr>)"
  using assms locked_update_lock [of a h f l']
  by (simp add: lockCall_def deref_def)

lemma assign_locked:
  assumes "nodes s = locked f h" "a < length h" "\<And>n l. g (n\<lparr>lock := l\<rparr>) = (g n)\<lparr>lock := l\<rparr>"
  shows "assign (Some a) g s = Inr (s\<lparr>nodes := locked f (h[a := g (h ! a)])\<rparr>)"
  using assms locked_update_field [of a h g f]
  by (simp add: assign_def)


text \<open>One call, with the store after it described by its nodes and its log.\<close>

lemma lockCall_step:
  assumes "nodes s = locked f h" "a < length h"
    and "lockMethod m self 0 (f a) = Inr (Returned n l')"
  obtains s' where "lockCall m self (Some a) s = Inr s'" "nodes s' = locked (f(a := l')) h"
    "lockCalls s' = lockCalls s @ [(m, a)]"
proof -
  let ?s' = "s\<lparr>nodes := locked (f(a := l')) h, lockCalls := lockCalls s @ [(m, a)]\<rparr>"
  have "lockCall m self (Some a) s = Inr ?s'" by (rule lockCall_locked [OF assms])
  moreover have "nodes ?s' = locked (f(a := l')) h" "lockCalls ?s' = lockCalls s @ [(m, a)]"
    by simp_all
  ultimately show thesis by (rule that)
qed

lemma assign_step:
  assumes "nodes s = locked f h" "a < length h" "\<And>n l. g (n\<lparr>lock := l\<rparr>) = (g n)\<lparr>lock := l\<rparr>"
  obtains s' where "assign (Some a) g s = Inr s'" "nodes s' = locked f (h[a := g (h ! a)])"
    "lockCalls s' = lockCalls s"
proof -
  let ?s' = "s\<lparr>nodes := locked f (h[a := g (h ! a)])\<rparr>"
  have "assign (Some a) g s = Inr ?s'" by (rule assign_locked [OF assms])
  moreover have "nodes ?s' = locked f (h[a := g (h ! a)])" "lockCalls ?s' = lockCalls s"
    by simp_all
  ultimately show thesis by (rule that)
qed

lemma deref_node:
  "nodes s = locked f h \<Longrightarrow> a < length h \<Longrightarrow> deref (Some a) s = Inr (nodes s ! a)"
  by (simp add: deref_def)

lemma follows_Cons: "follows h (a # zs) \<Longrightarrow> follows h zs"
  by (cases zs) simp_all

lemma follows_next:
  "follows h (a # zs) \<Longrightarrow> zs \<noteq> [] \<Longrightarrow> nextPtr (h ! a) = Some (hd zs)"
  by (cases zs) simp_all

text \<open>The loop of FindKey in may-write mode, walking along the rest of the chain.\<close>

lemma FindKey_while_mayWrite:
  assumes "follows h (n # zs)" "last (n # zs) = tail" "distinct (p # n # zs)"
    and "\<forall>a \<in> set (p # n # zs). a < length h" "head \<notin> set (n # zs)"
    and "nodes s = locked f h"
    and "\<forall>a < length h. f a = (if a = p \<or> a = n then heldMayWrite self else newLock)"
  shows "\<exists>s' f'. FindKey_while self k False (Some p) (Some n) s =
           Some (Inr (Some (last (p # takeWhile (\<lambda>a. key (h ! a) < k \<and> a \<noteq> tail) (n # zs))),
                      Some (hd (dropWhile (\<lambda>a. key (h ! a) < k \<and> a \<noteq> tail) (n # zs))), s')) \<and>
           nodes s' = locked f' h \<and>
           (\<forall>a < length h. f' a =
              (if a = last (p # takeWhile (\<lambda>a. key (h ! a) < k \<and> a \<noteq> tail) (n # zs)) \<or>
                  a = hd (dropWhile (\<lambda>a. key (h ! a) < k \<and> a \<noteq> tail) (n # zs))
               then heldMayWrite self else newLock))"
  using assms
proof (induction zs arbitrary: p n s f)
  case Nil
  then have n: "n = tail" "n < length h" by simp_all
  with Nil show ?case
    by (subst FindKey_while.simps) (auto simp: deref_locked)
next
  case (Cons z zs)
  let ?P = "\<lambda>a. key (h ! a) < k \<and> a \<noteq> tail"
  have "last (z # zs) \<in> set (z # zs)" by (rule last_in_set) simp
  with Cons.prems(2,3) have "n \<noteq> tail" by auto
  with Cons.prems have n: "n < length h" "n \<noteq> head" "n \<noteq> tail" "p < length h" "z < length h"
    "p \<noteq> n" "p \<noteq> z" "n \<noteq> z"
    by auto
  from Cons.prems(1) have nx: "nextPtr (h ! n) = Some z" by simp
  show ?case
  proof (cases "key (h ! n) < k")
    case False
    with Cons.prems n show ?thesis
      by (subst FindKey_while.simps) (auto simp: deref_locked)
  next
    case True
    from Cons.prems(7) n have fp: "f p = heldMayWrite self" and fz: "f z = newLock" by simp_all
    let ?s1 = "s\<lparr>nodes := locked (f(p := newLock)) h,
                  lockCalls := lockCalls s @ [(CallReleaseSharedLock, p)]\<rparr>"
    let ?s2 = "?s1\<lparr>nodes := locked (f(p := newLock, z := heldMayWrite self)) h,
                    lockCalls := lockCalls ?s1 @ [(CallLockMayWrite, z)]\<rparr>"
    have r1: "lockCall CallReleaseSharedLock self (Some p) s = Inr ?s1"
      using Cons.prems(6) n fp by (intro lockCall_locked) (simp_all add: lockMethod_single)
    have r2: "lockCall CallLockMayWrite self (Some z) ?s1 = Inr ?s2"
      using n fz by (intro lockCall_locked) (simp_all add: lockMethod_single)
    have adv: "AdvanceAndLockReadMayWrite self (Some p) (Some n) False s = Inr (Some n, Some z, ?s2)"
      using n nx by (simp add: AdvanceAndLockReadMayWrite_def r1 r2 deref_locked [of _ "f(p := newLock)" h])
    have "\<exists>s' f'. FindKey_while self k False (Some n) (Some z) ?s2 =
           Some (Inr (Some (last (n # takeWhile ?P (z # zs))),
                      Some (hd (dropWhile ?P (z # zs))), s')) \<and>
           nodes s' = locked f' h \<and>
           (\<forall>a < length h. f' a =
              (if a = last (n # takeWhile ?P (z # zs)) \<or> a = hd (dropWhile ?P (z # zs))
               then heldMayWrite self else newLock))"
      using Cons.prems n by (intro Cons.IH) (auto dest: follows_Cons)
    then obtain s' f' where
      "FindKey_while self k False (Some n) (Some z) ?s2 =
           Some (Inr (Some (last (n # takeWhile ?P (z # zs))),
                      Some (hd (dropWhile ?P (z # zs))), s'))"
      "nodes s' = locked f' h"
      "\<forall>a < length h. f' a =
              (if a = last (n # takeWhile ?P (z # zs)) \<or> a = hd (dropWhile ?P (z # zs))
               then heldMayWrite self else newLock)"
      by blast
    with True n Cons.prems(6) show ?thesis
      by (subst FindKey_while.simps) (auto simp: deref_locked adv)
  qed
qed


text \<open>The loop of FindKey in read mode.\<close>

lemma FindKey_while_read:
  assumes "follows h (n # zs)" "last (n # zs) = tail" "distinct (n # zs)"
    and "\<forall>a \<in> set (n # zs). a < length h" "head \<notin> set zs"
    and "nodes s = locked f h"
    and "\<forall>a < length h. f a = (if a = n then heldRead else newLock)"
  shows "\<exists>s' f'. FindKey_while self k True q (Some n) s =
           Some (Inr (if (key (h ! n) < k \<and> n \<noteq> tail) \<or> n = head
                      then Some (last (takeWhile (\<lambda>a. (key (h ! a) < k \<and> a \<noteq> tail) \<or> a = head) (n # zs)))
                      else q,
                      Some (hd (dropWhile (\<lambda>a. (key (h ! a) < k \<and> a \<noteq> tail) \<or> a = head) (n # zs))), s')) \<and>
           nodes s' = locked f' h \<and>
           (\<forall>a < length h. f' a =
              (if a = hd (dropWhile (\<lambda>a. (key (h ! a) < k \<and> a \<noteq> tail) \<or> a = head) (n # zs))
               then heldRead else newLock))"
  using assms
proof (induction zs arbitrary: q n s f)
  case Nil
  then have n: "n = tail" "n < length h" by simp_all
  with Nil show ?case
    by (subst FindKey_while.simps) (auto simp: deref_locked)
next
  case (Cons z zs)
  let ?P = "\<lambda>a. (key (h ! a) < k \<and> a \<noteq> tail) \<or> a = head"
  have "last (z # zs) \<in> set (z # zs)" by (rule last_in_set) simp
  with Cons.prems(2,3) have "n \<noteq> tail" by auto
  with Cons.prems have n: "n < length h" "n \<noteq> tail" "z < length h" "n \<noteq> z" "z \<noteq> head"
    by auto
  from Cons.prems(1) have nx: "nextPtr (h ! n) = Some z" by simp
  show ?case
  proof (cases "?P n")
    case False
    with Cons.prems n show ?thesis
      by (subst FindKey_while.simps) (auto simp: deref_locked)
  next
    case True
    from Cons.prems(7) n have fn: "f n = heldRead" and fz: "f z = newLock" by simp_all
    let ?s1 = "s\<lparr>nodes := locked (f(n := newLock)) h,
                  lockCalls := lockCalls s @ [(CallReleaseSharedLock, n)]\<rparr>"
    let ?s2 = "?s1\<lparr>nodes := locked (f(n := newLock, z := heldRead)) h,
                    lockCalls := lockCalls ?s1 @ [(CallLockRead, z)]\<rparr>"
    have r1: "lockCall CallReleaseSharedLock self (Some n) s = Inr ?s1"
      using Cons.prems(6) n fn by (intro lockCall_locked) (simp_all add: lockMethod_single)
    have r2: "lockCall CallLockRead self (Some z) ?s1 = Inr ?s2"
      using n fz by (intro lockCall_locked) (simp_all add: lockMethod_single)
    have adv: "AdvanceAndLockReadMayWrite self q (Some n) True s = Inr (Some n, Some z, ?s2)"
      using n nx Cons.prems(6) by (simp add: AdvanceAndLockReadMayWrite_def r1 r2 deref_locked)
    have "\<exists>s' f'. FindKey_while self k True (Some n) (Some z) ?s2 =
           Some (Inr (if ?P z then Some (last (takeWhile ?P (z # zs))) else Some n,
                      Some (hd (dropWhile ?P (z # zs))), s')) \<and>
           nodes s' = locked f' h \<and>
           (\<forall>a < length h. f' a = (if a = hd (dropWhile ?P (z # zs)) then heldRead else newLock))"
      using Cons.prems n by (intro Cons.IH) (auto dest: follows_Cons)
    then obtain s' f' where
      "FindKey_while self k True (Some n) (Some z) ?s2 =
           Some (Inr (if ?P z then Some (last (takeWhile ?P (z # zs))) else Some n,
                      Some (hd (dropWhile ?P (z # zs))), s'))"
      "nodes s' = locked f' h"
      "\<forall>a < length h. f' a = (if a = hd (dropWhile ?P (z # zs)) then heldRead else newLock)"
      by blast
    with True n Cons.prems(6) show ?thesis
      by (subst FindKey_while.simps) (auto simp: deref_locked adv)
  qed
qed

lemma follows_append_right: "follows h (us @ vs) \<Longrightarrow> follows h vs"
  by (induction us) (auto dest: follows_Cons)

lemma follows_join:
  "follows h (us @ v # vs) \<longleftrightarrow> follows h (us @ [v]) \<and> follows h (v # vs)"
proof (induction us)
  case Nil
  show ?case by simp
next
  case (Cons u us)
  then show ?case by (cases us) auto
qed

lemma follows_cong:
  assumes "follows h zs"
    and "\<forall>a \<in> set (butlast zs). nextPtr (h' ! a) = nextPtr (h ! a)"
    and "\<forall>b \<in> set (tl zs). prevPtr (h' ! b) = prevPtr (h ! b)"
  shows "follows h' zs"
  using assms
proof (induction h zs rule: follows.induct)
  case (1 h a b zs)
  then show ?case by auto
qed simp_all

lemma takeWhile_not_tail:
  "tail \<notin> set bs \<Longrightarrow>
   takeWhile (\<lambda>a. key (h ! a) < k \<and> a \<noteq> tail) (bs @ [tail]) = takeWhile (\<lambda>a. key (h ! a) < k) bs"
  by (induction bs) auto

lemma dropWhile_not_tail:
  "tail \<notin> set bs \<Longrightarrow>
   dropWhile (\<lambda>a. key (h ! a) < k \<and> a \<noteq> tail) (bs @ [tail]) = dropWhile (\<lambda>a. key (h ! a) < k) bs @ [tail]"
  by (induction bs) auto

lemma sortedList_range:
  assumes "sortedList h xs"
  shows "2 \<le> length h" "\<And>a. a \<in> set xs \<Longrightarrow> 2 \<le> a \<and> a < length h" "distinct xs"
    "head \<notin> set xs" "tail \<notin> set xs" "head < length h" "tail < length h"
  using assms by (auto simp: sortedList_def head_def tail_def)

lemma FindKey_mayWrite:
  assumes wf: "sortedList h xs" and xs: "xs = as @ bs" and p: "p = last (head # as)"
    and s: "nodes s = locked f h"
    and f: "\<forall>a < length h. f a = (if a = p then heldMayWrite self else newLock)"
  shows "\<exists>s' f'. FindKey self (Some p) k False s =
           Some (Inr (Some (last (p # takeWhile (\<lambda>a. key (h ! a) < k) bs)),
                      Some (hd (dropWhile (\<lambda>a. key (h ! a) < k) bs @ [tail])), s')) \<and>
           nodes s' = locked f' h \<and>
           (\<forall>a < length h. f' a =
              (if a = last (p # takeWhile (\<lambda>a. key (h ! a) < k) bs) \<or>
                  a = hd (dropWhile (\<lambda>a. key (h ! a) < k) bs @ [tail])
               then heldMayWrite self else newLock))"
proof -
  note R = sortedList_range [OF wf]
  have pin: "p \<in> set (head # as)" unfolding p by (rule last_in_set) simp
  from wf xs have fo: "follows h ((head # as) @ bs @ [tail])" by (simp add: sortedList_def)
  have "(head # as) @ bs @ [tail] = butlast (head # as) @ p # bs @ [tail]"
    unfolding p by (simp del: butlast.simps last.simps add: append_butlast_last_id)
  with fo have fp: "follows h (p # bs @ [tail])"
    by (metis follows_append_right)
  obtain n zs where nz: "bs @ [tail] = n # zs" by (cases "bs @ [tail]") auto
  from R xs pin have pl: "p < length h" "p \<noteq> tail" "p \<notin> set bs"
    by (auto simp: distinct_append)
  have d: "distinct (p # n # zs)" using R xs pl unfolding nz [symmetric] by auto
  have r: "\<forall>a \<in> set (p # n # zs). a < length h" "head \<notin> set (n # zs)"
    using R xs pl unfolding nz [symmetric] by auto
  have l: "last (n # zs) = tail" unfolding nz [symmetric] by simp
  from R(5) xs have tb: "tail \<notin> set bs" by simp
  from fp nz have nx: "nextPtr (h ! p) = Some n" by simp
  from r d have nl: "n < length h" "n \<noteq> p" by auto
  with f have fn: "f n = newLock" by simp
  let ?s1 = "s\<lparr>nodes := locked (f(n := heldMayWrite self)) h,
                lockCalls := lockCalls s @ [(CallLockMayWrite, n)]\<rparr>"
  have r1: "lockCall CallLockMayWrite self (Some n) s = Inr ?s1"
    using s nl fn by (intro lockCall_locked) (simp_all add: lockMethod_single)
  have "\<exists>s' f'. FindKey_while self k False (Some p) (Some n) ?s1 =
           Some (Inr (Some (last (p # takeWhile (\<lambda>a. key (h ! a) < k \<and> a \<noteq> tail) (n # zs))),
                      Some (hd (dropWhile (\<lambda>a. key (h ! a) < k \<and> a \<noteq> tail) (n # zs))), s')) \<and>
           nodes s' = locked f' h \<and>
           (\<forall>a < length h. f' a =
              (if a = last (p # takeWhile (\<lambda>a. key (h ! a) < k \<and> a \<noteq> tail) (n # zs)) \<or>
                  a = hd (dropWhile (\<lambda>a. key (h ! a) < k \<and> a \<noteq> tail) (n # zs))
               then heldMayWrite self else newLock))"
    using fp d r l f nl unfolding nz
    by (intro FindKey_while_mayWrite) auto
  then show ?thesis
    unfolding nz [symmetric] takeWhile_not_tail [OF tb] dropWhile_not_tail [OF tb]
    using s pl nx r1 by (simp add: FindKey_def deref_locked nz)
qed

lemma sortedList_quiet: "sortedList h xs \<Longrightarrow> a < length h \<Longrightarrow> lock (h ! a) = newLock"
  by (simp add: sortedList_def)

lemma hd_dropWhile_in:
  "dropWhile P bs \<noteq> [] \<Longrightarrow> hd (dropWhile P bs) \<in> set bs"
  by (metis hd_in_set set_dropWhileD)

text \<open>The two nodes FindKey hands back in may-write mode.\<close>

lemma candidate_pair:
  fixes k :: int
  assumes wf: "sortedList h xs" and xs: "xs = as @ bs" and p: "p = last (head # as)"
  defines "p' \<equiv> last (p # takeWhile (\<lambda>a. key (h ! a) < k) bs)"
    and "c \<equiv> hd (dropWhile (\<lambda>a. key (h ! a) < k) bs @ [tail])"
  shows "p' < length h" "c < length h" "p' \<noteq> c" "p' \<noteq> tail" "c \<noteq> head"
    "head # xs @ [tail] =
       butlast (head # as @ takeWhile (\<lambda>a. key (h ! a) < k) bs) @ [p', c] @
       tl (dropWhile (\<lambda>a. key (h ! a) < k) bs @ [tail])"
proof -
  let ?us = "takeWhile (\<lambda>a. key (h ! a) < k) bs" and ?vs = "dropWhile (\<lambda>a. key (h ! a) < k) bs"
  note R = sortedList_range [OF wf]
  have bs: "bs = ?us @ ?vs" by simp
  have p'_alt: "p' = last (head # as @ ?us)"
    unfolding p'_def p by (cases ?us) (simp_all del: takeWhile_eq_Nil_iff)
  have ch: "head # xs @ [tail] = (head # as @ ?us) @ (?vs @ [tail])"
    unfolding xs by (subst (1) bs) simp
  have pu: "head # as @ ?us = butlast (head # as @ ?us) @ [p']"
    unfolding p'_alt by (simp del: butlast.simps last.simps)
  have cv: "?vs @ [tail] = c # tl (?vs @ [tail])"
    unfolding c_def by (cases "?vs @ [tail]") simp_all
  from pu cv show chain: "head # xs @ [tail] =
       butlast (head # as @ ?us) @ [p', c] @ tl (?vs @ [tail])"
    using ch by (metis append_Cons append_Nil append_assoc)
  have d: "distinct (head # xs @ [tail])" using R by auto
  have r: "\<forall>a \<in> set (head # xs @ [tail]). a < length h" using R by auto
  from d show "p' \<noteq> c" unfolding chain by auto
  from r show "p' < length h" "c < length h" unfolding chain by auto
  have "tail \<in> set (?vs @ [tail])" by simp
  then have "tail \<in> set (c # tl (?vs @ [tail]))" by (subst cv [symmetric])
  with d show "p' \<noteq> tail" unfolding chain by auto
  have "head \<in> set (head # as @ ?us)" by simp
  then have "head \<in> set (butlast (head # as @ ?us) @ [p'])" by (subst pu [symmetric])
  with d show "c \<noteq> head" unfolding chain by auto
qed

lemma sorted_wrt_hd_le:
  fixes g :: "nat \<Rightarrow> int"
  assumes "sorted_wrt (<) (map g vs)" "y \<in> set vs"
  shows "g (hd vs) \<le> g y"
  using assms by (cases vs) auto

text \<open>Linking a new node between two neighbours keeps the list sorted.\<close>

lemma sortedList_insert:
  fixes k :: int and v :: char
  assumes wf: "sortedList h xs"
    and xs: "xs = ws @ vs"
    and chain: "head # ws = pre @ [p']" "vs @ [tail] = c # post"
    and lt: "\<forall>a \<in> set ws. key (h ! a) < k" and gt: "\<forall>a \<in> set vs. k < key (h ! a)"
  defines "h' \<equiv> (h @ [newNode k v (Some p') (Some c)])
                   [p' := (h ! p')\<lparr>nextPtr := Some (length h)\<rparr>,
                    c := (h ! c)\<lparr>prevPtr := Some (length h)\<rparr>]"
  shows "sortedList h' (ws @ [length h] @ vs)"
proof -
  note R = sortedList_range [OF wf]
  have rng: "\<forall>a \<in> set xs. 2 \<le> a \<and> a < length h" using R(2) by blast
  let ?new = "length h"
  have full: "head # xs @ [tail] = pre @ [p', c] @ post"
    using chain xs by (metis append_Cons append_Nil append_assoc)
  have d: "distinct (pre @ [p', c] @ post)"
    using R unfolding full [symmetric] by auto
  have r: "\<forall>a \<in> set (pre @ [p', c] @ post). a < length h"
    using R unfolding full [symmetric] by auto
  then have pc: "p' < length h" "c < length h" "p' \<noteq> c" using d by auto
  have ht: "head \<noteq> c" "tail \<noteq> p'"
  proof -
    have "head \<in> set (pre @ [p'])" unfolding chain(1) [symmetric] by simp
    with d show "head \<noteq> c" by auto
    have "tail \<in> set (c # post)" unfolding chain(2) [symmetric] by simp
    with d show "tail \<noteq> p'" by auto
  qed
  have old: "key (h' ! a) = key (h ! a) \<and> isNodeActive (h' ! a) = isNodeActive (h ! a) \<and>
             lock (h' ! a) = lock (h ! a) \<and>
             (a \<noteq> p' \<longrightarrow> nextPtr (h' ! a) = nextPtr (h ! a)) \<and>
             (a \<noteq> c \<longrightarrow> prevPtr (h' ! a) = prevPtr (h ! a))"
    if "a < length h" for a
    using that pc by (simp add: h'_def nth_list_update nth_append)
  have new: "h' ! ?new = newNode k v (Some p') (Some c)"
    using pc by (simp add: h'_def nth_list_update nth_append)
  have p'n: "nextPtr (h' ! p') = Some ?new" and cp: "prevPtr (h' ! c) = Some ?new"
    using pc by (simp_all add: h'_def nth_list_update nth_append)
  have len: "length h' = Suc (length h)" by (simp add: h'_def)
  from wf have fo: "follows h (pre @ [p', c] @ post)"
    unfolding full [symmetric] by (simp add: sortedList_def)
  have f1: "follows h' (pre @ [p'])"
  proof (rule follows_cong)
    from fo show "follows h (pre @ [p'])"
      by (metis append_Cons append_Nil follows_join)
    show "\<forall>a \<in> set (butlast (pre @ [p'])). nextPtr (h' ! a) = nextPtr (h ! a)"
      using d r old by auto
    show "\<forall>b \<in> set (tl (pre @ [p'])). prevPtr (h' ! b) = prevPtr (h ! b)"
    proof
      fix b assume "b \<in> set (tl (pre @ [p']))"
      then have "b \<in> set (pre @ [p'])" by (metis list.set_sel(2) snoc_eq_iff_butlast)
      with d r old show "prevPtr (h' ! b) = prevPtr (h ! b)" by auto
    qed
  qed
  have f2: "follows h' (c # post)"
  proof (rule follows_cong)
    from fo have "follows h ([p', c] @ post)" by (rule follows_append_right)
    then show "follows h (c # post)" by (auto dest: follows_Cons)
    show "\<forall>a \<in> set (butlast (c # post)). nextPtr (h' ! a) = nextPtr (h ! a)"
    proof
      fix a assume "a \<in> set (butlast (c # post))"
      then have "a \<in> set (c # post)" by (rule in_set_butlastD)
      with d r old show "nextPtr (h' ! a) = nextPtr (h ! a)" by auto
    qed
    show "\<forall>b \<in> set (tl (c # post)). prevPtr (h' ! b) = prevPtr (h ! b)"
      using d r old by auto
  qed
  have f3: "follows h' [p', ?new, c]"
    using new p'n cp by (simp add: newNode_def)
  have "follows h' (pre @ [p'] @ [?new] @ c # post)"
    using f1 f2 f3 follows_join [of h' pre p' "?new # c # post"]
    by simp
  moreover have "head # (ws @ [?new] @ vs) @ [tail] = pre @ [p'] @ [?new] @ c # post"
    using chain by (metis append_Cons append_Nil append_assoc)
  ultimately have fo': "follows h' (head # (ws @ [?new] @ vs) @ [tail])" by simp
  have keys: "map (\<lambda>a. key (h' ! a)) (ws @ [?new] @ vs) =
              map (\<lambda>a. key (h ! a)) ws @ [k] @ map (\<lambda>a. key (h ! a)) vs"
    using rng xs old new by (auto simp: newNode_def)
  from wf xs have so: "sorted_wrt (<) (map (\<lambda>a. key (h ! a)) ws @ map (\<lambda>a. key (h ! a)) vs)"
    by (simp add: sortedList_def)
  have sorted: "sorted_wrt (<) (map (\<lambda>a. key (h' ! a)) (ws @ [?new] @ vs))"
    unfolding keys using so lt gt by (auto simp: sorted_wrt_append)
  show ?thesis
    unfolding sortedList_def
  proof (intro conjI)
    show "2 \<le> length h'" using R(1) len by simp
    show "\<forall>a \<in> set (ws @ [?new] @ vs). 2 \<le> a \<and> a < length h'"
      using R(1) rng xs len by (auto simp: less_Suc_eq)
    show "distinct (ws @ [?new] @ vs)" using rng R(3) xs by auto
    show "follows h' (head # (ws @ [?new] @ vs) @ [tail])" by (rule fo')
    show "prevPtr (h' ! head) = None" using wf old [OF R(6)] ht by (simp add: sortedList_def)
    show "nextPtr (h' ! tail) = None" using wf old [OF R(7)] ht by (simp add: sortedList_def)
    show "sorted_wrt (<) (map (\<lambda>a. key (h' ! a)) (ws @ [?new] @ vs))" by (rule sorted)
    show "\<forall>a \<in> set (head # (ws @ [?new] @ vs) @ [tail]). isNodeActive (h' ! a)"
      using wf R(6,7) rng xs old new by (auto simp: sortedList_def newNode_def)
    show "\<forall>a < length h'. lock (h' ! a) = newLock"
      using wf old new len by (auto simp: sortedList_def newNode_def less_Suc_eq)
  qed
qed

lemma InsertFromPosition_sortedList:
  fixes k :: int and v :: char
  assumes wf: "sortedList h xs" and xs: "xs = as @ bs" and p: "p = last (head # as)"
    and lt: "\<forall>a \<in> set as. key (h ! a) < k"
    and s: "nodes s = locked f h"
    and f: "\<forall>a < length h. f a = (if a = p then heldMayWrite self else newLock)"
  defines "us \<equiv> takeWhile (\<lambda>a. key (h ! a) < k) bs"
    and "vs \<equiv> dropWhile (\<lambda>a. key (h ! a) < k) bs"
  defines "p' \<equiv> last (p # us)" and "c \<equiv> hd (vs @ [tail])"
  shows "vs \<noteq> [] \<and> key (h ! hd vs) = k \<Longrightarrow>
           \<exists>s'. InsertFromPosition self (Some p) k v s = Some (Inr (False, s')) \<and> nodes s' = h"
    and "\<not> (vs \<noteq> [] \<and> key (h ! hd vs) = k) \<Longrightarrow>
           \<exists>s'. InsertFromPosition self (Some p) k v s = Some (Inr (True, s')) \<and>
             nodes s' = (h @ [newNode k v (Some p') (Some c)])
                          [p' := (h ! p')\<lparr>nextPtr := Some (length h)\<rparr>,
                           c := (h ! c)\<lparr>prevPtr := Some (length h)\<rparr>] \<and>
             sortedList (nodes s') (as @ us @ [length h] @ vs)"
proof -
  note R = sortedList_range [OF wf]
  from FindKey_mayWrite [OF wf xs p s f, of k] obtain s0 f0 where
    fk: "FindKey self (Some p) k False s = Some (Inr (Some p', Some c, s0))"
    and s0: "nodes s0 = locked f0 h"
    and f0: "\<forall>a < length h. f0 a = (if a = p' \<or> a = c then heldMayWrite self else newLock)"
    unfolding p'_def c_def us_def vs_def by blast
  note C = candidate_pair [OF wf xs p, of k, folded us_def vs_def, folded p'_def c_def]
  have ctail: "c = tail \<longleftrightarrow> vs = []"
  proof
    assume "c = tail"
    show "vs = []"
    proof (rule ccontr)
      assume "vs \<noteq> []"
      then have "c \<in> set bs" unfolding c_def vs_def by (simp add: hd_dropWhile_in)
      with R(5) xs \<open>c = tail\<close> show False by simp
    qed
  qed (simp add: c_def)
  have chd: "vs \<noteq> [] \<Longrightarrow> c = hd vs" by (simp add: c_def)
  have dc: "deref (Some c) s0 = Inr (nodes s0 ! c)"
    using s0 C(2) by (rule deref_node)
  have kc: "key (nodes s0 ! c) = key (h ! c)"
    using C(2) by (simp add: s0)
  {
    assume dup: "vs \<noteq> [] \<and> key (h ! hd vs) = k"
    with ctail chd have c: "c \<noteq> tail" "key (h ! c) = k" by auto
    from lockCall_step [OF s0 C(1), of CallReleaseSharedLock self None newLock] f0 C(1)
    obtain s1 where r1: "lockCall CallReleaseSharedLock self (Some p') s0 = Inr s1"
      and n1: "nodes s1 = locked (f0(p' := newLock)) h"
      by (auto simp: lockMethod_single)
    from lockCall_step [OF n1 C(2), of CallReleaseSharedLock self None newLock] f0 C
    obtain s2 where r2: "lockCall CallReleaseSharedLock self (Some c) s1 = Inr s2"
      and n2: "nodes s2 = locked (f0(p' := newLock, c := newLock)) h"
      by (auto simp: lockMethod_single)
    have "locked (f0(p' := newLock, c := newLock)) h = h"
      using f0 sortedList_quiet [OF wf] by (intro locked_id) simp
    with n2 have "nodes s2 = h" by simp
    with c show "\<exists>s'. InsertFromPosition self (Some p) k v s = Some (Inr (False, s')) \<and> nodes s' = h"
      by (simp add: InsertFromPosition_def fk dc kc r1 r2)
  }
  {
    assume nodup: "\<not> (vs \<noteq> [] \<and> key (h ! hd vs) = k)"
    with ctail chd have c: "c = tail \<or> key (h ! c) \<noteq> k" by auto
    let ?nn = "newNode k v (Some p') (Some c)"
    let ?h3 = "h @ [?nn]"
    let ?h4 = "?h3[p' := (h ! p')\<lparr>nextPtr := Some (length h)\<rparr>]"
    let ?h5 = "?h4[c := (h ! c)\<lparr>prevPtr := Some (length h)\<rparr>]"
    let ?f2 = "f0(p' := heldWrite, c := heldWrite)"
    let ?f3 = "?f2(length h := newLock)"
    from lockCall_step [OF s0 C(1), of CallUpgradeLock self None heldWrite] f0 C(1)
    obtain s1 where r1: "lockCall CallUpgradeLock self (Some p') s0 = Inr s1"
      and n1: "nodes s1 = locked (f0(p' := heldWrite)) h"
      by (auto simp: lockMethod_single)
    from lockCall_step [OF n1 C(2), of CallUpgradeLock self None heldWrite] f0 C
    obtain s2 where r2: "lockCall CallUpgradeLock self (Some c) s1 = Inr s2"
      and n2: "nodes s2 = locked ?f2 h"
      by (auto simp: lockMethod_single)
    have len2: "length (nodes s2) = length h" by (simp add: n2)
    define s3 where "s3 = s2\<lparr>nodes := nodes s2 @ [?nn]\<rparr>"
    have n3: "nodes s3 = locked ?f3 ?h3"
      by (simp add: s3_def n2 locked_append)
    have pl3: "p' < length ?h3" "c < length ?h3" using C(1,2) by simp_all
    from assign_step [OF n3 pl3(1), of "\<lambda>x. x\<lparr>nextPtr := Some (length h)\<rparr>"]
    obtain s4 where r4: "assign (Some p') (\<lambda>x. x\<lparr>nextPtr := Some (length h)\<rparr>) s3 = Inr s4"
      and n4': "nodes s4 = locked ?f3 (?h3[p' := (?h3 ! p')\<lparr>nextPtr := Some (length h)\<rparr>])"
      by auto
    from n4' C(1) have n4: "nodes s4 = locked ?f3 ?h4" by (simp add: nth_append)
    have pl4: "p' < length ?h4" "c < length ?h4" using C(1,2) by simp_all
    have d4: "deref (Some p') s4 = Inr (nodes s4 ! p')"
      using n4 pl4(1) by (rule deref_node)
    have nx4: "nextPtr (nodes s4 ! p') = Some (length h)"
      using C(1) by (simp add: n4)
    from assign_step [OF n4 pl4(2), of "\<lambda>x. x\<lparr>prevPtr := Some (length h)\<rparr>"]
    obtain s5 where r5: "assign (Some c) (\<lambda>x. x\<lparr>prevPtr := Some (length h)\<rparr>) s4 = Inr s5"
      and n5': "nodes s5 = locked ?f3 (?h4[c := (?h4 ! c)\<lparr>prevPtr := Some (length h)\<rparr>])"
      by auto
    from n5' C(1,2,3) have n5: "nodes s5 = locked ?f3 ?h5" by (simp add: nth_append)
    have pl5: "p' < length ?h5" "c < length ?h5" using C(1,2) by simp_all
    from lockCall_step [OF n5 pl5(1), of CallReleaseExclusiveLock self None newLock] C
    obtain s6 where r6: "lockCall CallReleaseExclusiveLock self (Some p') s5 = Inr s6"
      and n6: "nodes s6 = locked (?f3(p' := newLock)) ?h5"
      by (auto simp: lockMethod_single)
    from lockCall_step [OF n6 pl5(2), of CallReleaseExclusiveLock self None newLock] C
    obtain s7 where r7: "lockCall CallReleaseExclusiveLock self (Some c) s6 = Inr s7"
      and n7': "nodes s7 = locked (?f3(p' := newLock, c := newLock)) ?h5"
      by (auto simp: lockMethod_single)
    have quiet5: "lock (?h5 ! a) = newLock" if "a < Suc (length h)" for a
      using that sortedList_quiet [OF wf] C(1,2)
      by (auto simp: nth_list_update nth_append less_Suc_eq)
    have "locked (?f3(p' := newLock, c := newLock)) ?h5 = ?h5"
    proof (rule locked_id)
      fix a assume "a < length ?h5"
      then have a: "a < Suc (length h)" by simp
      with quiet5 [OF a] f0 show "(?f3(p' := newLock, c := newLock)) a = lock (?h5 ! a)"
        by (auto simp: less_Suc_eq)
    qed
    with n7' have n7: "nodes s7 = ?h5" by simp
    from c have res: "key (h ! c) = k \<longrightarrow> c = tail" by blast
    from c have res2: "(key (h ! c) = k \<and> c \<noteq> tail) = False" by blast
    have run: "InsertFromPosition self (Some p) k v s = Some (Inr (True, s7))"
      by (simp add: InsertFromPosition_def fk dc kc res res2 r1 r2 Let_def len2 s3_def [symmetric]
            r4 d4 nx4 r5 r6 r7)
    have bs: "bs = us @ vs" by (simp add: us_def vs_def)
    have p'_alt: "p' = last (head # as @ us)"
      unfolding p'_def p by (cases us) simp_all
    have ch1: "head # (as @ us) = butlast (head # as @ us) @ [p']"
      unfolding p'_alt by (simp del: butlast.simps last.simps)
    have ch2: "vs @ [tail] = c # tl (vs @ [tail])"
      unfolding c_def by (cases "vs @ [tail]") simp_all
    have lt': "\<forall>a \<in> set (as @ us). key (h ! a) < k"
      using lt by (auto simp: us_def dest: set_takeWhileD)
    have gt: "\<forall>a \<in> set vs. k < key (h ! a)"
    proof
      fix a assume a: "a \<in> set vs"
      then have ne: "vs \<noteq> []" by auto
      then have "\<not> key (h ! hd vs) < k" unfolding vs_def by (metis hd_dropWhile)
      with nodup ne have "k < key (h ! hd vs)" by auto
      moreover from wf xs bs have "sorted_wrt (<) (map (\<lambda>a. key (h ! a)) vs)"
        by (simp add: sortedList_def sorted_wrt_append)
      then have "key (h ! hd vs) \<le> key (h ! a)" using a by (rule sorted_wrt_hd_le)
      ultimately show "k < key (h ! a)" by simp
    qed
    have "sortedList ?h5 ((as @ us) @ [length h] @ vs)"
      using wf _ ch1 ch2 lt' gt by (rule sortedList_insert) (simp add: xs bs)
    with run n7
    show "\<exists>s'. InsertFromPosition self (Some p) k v s = Some (Inr (True, s')) \<and>
             nodes s' = (h @ [newNode k v (Some p') (Some c)])
                          [p' := (h ! p')\<lparr>nextPtr := Some (length h)\<rparr>,
                           c := (h ! c)\<lparr>prevPtr := Some (length h)\<rparr>] \<and>
             sortedList (nodes s') (as @ us @ [length h] @ vs)"
      by (intro exI [of _ s7]) simp
  }
qed

text \<open>Unlinking a node keeps the list sorted.\<close>

lemma sortedList_delete:
  assumes wf: "sortedList h xs"
    and xs: "xs = us @ c # ws"
    and chain: "head # us = pre @ [p']" "ws @ [tail] = n' # post"
  defines "h' \<equiv> h[p' := (h ! p')\<lparr>nextPtr := Some n'\<rparr>,
                    n' := (h ! n')\<lparr>prevPtr := Some p'\<rparr>,
                    c := (h ! c)\<lparr>isNodeActive := False\<rparr>]"
  shows "sortedList h' (us @ ws)"
proof -
  note R = sortedList_range [OF wf]
  have rng: "\<forall>a \<in> set xs. 2 \<le> a \<and> a < length h" using R(2) by blast
  have full: "head # xs @ [tail] = pre @ [p', c, n'] @ post"
    using chain xs by (metis append_Cons append_Nil append_assoc)
  have d: "distinct (pre @ [p', c, n'] @ post)"
    using R unfolding full [symmetric] by auto
  have r: "\<forall>a \<in> set (pre @ [p', c, n'] @ post). a < length h"
    using R unfolding full [symmetric] by auto
  then have pc: "p' < length h" "c < length h" "n' < length h" "p' \<noteq> c" "p' \<noteq> n'" "c \<noteq> n'"
    using d by auto
  have ht: "head \<noteq> n'" "tail \<noteq> p'" "head \<noteq> c" "tail \<noteq> c"
  proof -
    have "head \<in> set (pre @ [p'])" unfolding chain(1) [symmetric] by simp
    with d show "head \<noteq> n'" "head \<noteq> c" by auto
    have "tail \<in> set (n' # post)" unfolding chain(2) [symmetric] by simp
    with d show "tail \<noteq> p'" "tail \<noteq> c" by auto
  qed
  have old: "key (h' ! a) = key (h ! a) \<and> lock (h' ! a) = lock (h ! a) \<and>
             (a \<noteq> c \<longrightarrow> isNodeActive (h' ! a) = isNodeActive (h ! a)) \<and>
             (a \<noteq> p' \<longrightarrow> nextPtr (h' ! a) = nextPtr (h ! a)) \<and>
             (a \<noteq> n' \<longrightarrow> prevPtr (h' ! a) = prevPtr (h ! a))"
    if "a < length h" for a
    using that pc by (simp add: h'_def nth_list_update)
  have p'n: "nextPtr (h' ! p') = Some n'" and np: "prevPtr (h' ! n') = Some p'"
    using pc by (simp_all add: h'_def nth_list_update)
  have len: "length h' = length h" by (simp add: h'_def)
  from wf have fo: "follows h (pre @ [p', c, n'] @ post)"
    unfolding full [symmetric] by (simp add: sortedList_def)
  have f1: "follows h' (pre @ [p'])"
  proof (rule follows_cong)
    from fo show "follows h (pre @ [p'])"
      by (metis append_Cons append_Nil follows_join)
    show "\<forall>a \<in> set (butlast (pre @ [p'])). nextPtr (h' ! a) = nextPtr (h ! a)"
      using d r old by auto
    show "\<forall>b \<in> set (tl (pre @ [p'])). prevPtr (h' ! b) = prevPtr (h ! b)"
    proof
      fix b assume "b \<in> set (tl (pre @ [p']))"
      then have "b \<in> set (pre @ [p'])" by (metis list.set_sel(2) snoc_eq_iff_butlast)
      with d r old show "prevPtr (h' ! b) = prevPtr (h ! b)" by auto
    qed
  qed
  have f2: "follows h' (n' # post)"
  proof (rule follows_cong)
    from fo have "follows h ([p', c, n'] @ post)" by (rule follows_append_right)
    then show "follows h (n' # post)" by (auto dest: follows_Cons)
    show "\<forall>a \<in> set (butlast (n' # post)). nextPtr (h' ! a) = nextPtr (h ! a)"
    proof
      fix a assume "a \<in> set (butlast (n' # post))"
      then have "a \<in> set (n' # post)" by (rule in_set_butlastD)
      with d r old show "nextPtr (h' ! a) = nextPtr (h ! a)" by auto
    qed
    show "\<forall>b \<in> set (tl (n' # post)). prevPtr (h' ! b) = prevPtr (h ! b)"
      using d r old by auto
  qed
  have "follows h' (pre @ [p'] @ n' # post)"
    using f1 f2 p'n np follows_join [of h' pre p' "n' # post"] by simp
  moreover have "head # (us @ ws) @ [tail] = pre @ [p'] @ n' # post"
    using chain by (metis append_Cons append_Nil append_assoc)
  ultimately have fo': "follows h' (head # (us @ ws) @ [tail])" by simp
  have keys: "map (\<lambda>a. key (h' ! a)) (us @ ws) = map (\<lambda>a. key (h ! a)) (us @ ws)"
    using rng xs old by auto
  from wf xs have sorted: "sorted_wrt (<) (map (\<lambda>a. key (h' ! a)) (us @ ws))"
    unfolding keys by (auto simp: sortedList_def sorted_wrt_append)
  have cnot: "c \<notin> set (us @ ws)" using R(3) xs by auto
  show ?thesis
    unfolding sortedList_def
  proof (intro conjI)
    show "2 \<le> length h'" using R(1) len by simp
    show "\<forall>a \<in> set (us @ ws). 2 \<le> a \<and> a < length h'" using rng xs len by auto
    show "distinct (us @ ws)" using R(3) xs by auto
    show "follows h' (head # (us @ ws) @ [tail])" by (rule fo')
    show "prevPtr (h' ! head) = None" using wf old [OF R(6)] ht by (simp add: sortedList_def)
    show "nextPtr (h' ! tail) = None" using wf old [OF R(7)] ht by (simp add: sortedList_def)
    show "sorted_wrt (<) (map (\<lambda>a. key (h' ! a)) (us @ ws))" by (rule sorted)
    show "\<forall>a \<in> set (head # (us @ ws) @ [tail]). isNodeActive (h' ! a)"
    proof
      fix a assume a: "a \<in> set (head # (us @ ws) @ [tail])"
      with cnot ht have "a \<noteq> c" by auto
      moreover from a R(6,7) rng xs have "a < length h" by auto
      moreover from a wf xs have "isNodeActive (h ! a)" by (auto simp: sortedList_def)
      ultimately show "isNodeActive (h' ! a)" using old by simp
    qed
    show "\<forall>a < length h'. lock (h' ! a) = newLock"
      using wf old len by (auto simp: sortedList_def)
  qed
qed

lemma sortedList_locked: "sortedList h xs \<Longrightarrow> h = locked (\<lambda>a. newLock) h"
  by (rule locked_id [symmetric]) (simp add: sortedList_quiet)

lemma Delete_sortedList:
  fixes k :: int
  assumes wf: "sortedList h xs" and s: "nodes s = h"
  defines "us \<equiv> takeWhile (\<lambda>a. key (h ! a) < k) xs"
    and "vs \<equiv> dropWhile (\<lambda>a. key (h ! a) < k) xs"
  defines "p' \<equiv> last (head # us)" and "c \<equiv> hd (vs @ [tail])"
    and "n' \<equiv> hd (tl vs @ [tail])"
  shows "vs \<noteq> [] \<and> key (h ! hd vs) = k \<Longrightarrow>
           \<exists>s'. Delete self k s = Some (Inr (True, s')) \<and>
             nodes s' = h[p' := (h ! p')\<lparr>nextPtr := Some n'\<rparr>,
                          n' := (h ! n')\<lparr>prevPtr := Some p'\<rparr>,
                          c := (h ! c)\<lparr>isNodeActive := False\<rparr>] \<and>
             sortedList (nodes s') (us @ tl vs)"
    and "\<not> (vs \<noteq> [] \<and> key (h ! hd vs) = k) \<Longrightarrow>
           \<exists>s'. Delete self k s = Some (Inr (False, s')) \<and> nodes s' = h"
proof -
  note R = sortedList_range [OF wf]
  from s sortedList_locked [OF wf] have sl: "nodes s = locked (\<lambda>a. newLock) h" by simp
  from lockCall_step [OF sl R(6), of CallLockMayWrite self None "heldMayWrite self"]
  obtain sh where rh: "lockCall CallLockMayWrite self (Some head) s = Inr sh"
    and nh: "nodes sh = locked ((\<lambda>a. newLock)(head := heldMayWrite self)) h"
    by (auto simp: lockMethod_single)
  have xs: "xs = [] @ xs" and hd: "head = last (head # [])" by simp_all
  have fh: "\<forall>a < length h. ((\<lambda>a. newLock)(head := heldMayWrite self)) a =
              (if a = head then heldMayWrite self else newLock)" by simp
  from FindKey_mayWrite [OF wf xs hd nh fh, of k] obtain s0 f0 where
    fk: "FindKey self (Some head) k False sh = Some (Inr (Some p', Some c, s0))"
    and s0: "nodes s0 = locked f0 h"
    and f0: "\<forall>a < length h. f0 a = (if a = p' \<or> a = c then heldMayWrite self else newLock)"
    unfolding p'_def c_def us_def vs_def by blast
  note C = candidate_pair [OF wf xs hd, of k, folded us_def vs_def, folded p'_def c_def]
  have ctail: "c = tail \<longleftrightarrow> vs = []"
  proof
    assume "c = tail"
    show "vs = []"
    proof (rule ccontr)
      assume "vs \<noteq> []"
      then have "c \<in> set xs" unfolding c_def vs_def by (simp add: hd_dropWhile_in)
      with R(5) \<open>c = tail\<close> show False by simp
    qed
  qed (simp add: c_def)
  have chd: "vs \<noteq> [] \<Longrightarrow> c = hd vs" by (simp add: c_def)
  have dc: "deref (Some c) s0 = Inr (nodes s0 ! c)"
    using s0 C(2) by (rule deref_node)
  have kc: "key (nodes s0 ! c) = key (h ! c)"
    using C(2) by (simp add: s0)
  {
    assume absent: "\<not> (vs \<noteq> [] \<and> key (h ! hd vs) = k)"
    with ctail chd have c: "(key (h ! c) = k \<and> c \<noteq> tail) = False" by auto
    from lockCall_step [OF s0 C(1), of CallReleaseSharedLock self None newLock] f0 C(1)
    obtain s1 where r1: "lockCall CallReleaseSharedLock self (Some p') s0 = Inr s1"
      and n1: "nodes s1 = locked (f0(p' := newLock)) h"
      by (auto simp: lockMethod_single)
    from lockCall_step [OF n1 C(2), of CallReleaseSharedLock self None newLock] f0 C
    obtain s2 where r2: "lockCall CallReleaseSharedLock self (Some c) s1 = Inr s2"
      and n2: "nodes s2 = locked (f0(p' := newLock, c := newLock)) h"
      by (auto simp: lockMethod_single)
    have "locked (f0(p' := newLock, c := newLock)) h = h"
      using f0 sortedList_quiet [OF wf] by (intro locked_id) simp
    with n2 have "nodes s2 = h" by simp
    then show "\<exists>s'. Delete self k s = Some (Inr (False, s')) \<and> nodes s' = h"
      by (simp add: Delete_def rh fk dc kc c r1 r2)
  }
  {
    assume found: "vs \<noteq> [] \<and> key (h ! hd vs) = k"
    with ctail chd have c: "key (h ! c) = k" "c \<noteq> tail" "vs \<noteq> []" "c = hd vs" by auto
    have xs': "xs = us @ c # tl vs"
      using c(3,4) by (metis us_def vs_def list.collapse takeWhile_dropWhile_id)
    have ch1: "head # us = butlast (head # us) @ [p']"
      unfolding p'_def by (simp del: butlast.simps last.simps)
    have ch2: "tl vs @ [tail] = n' # tl (tl vs @ [tail])"
      unfolding n'_def by (cases "tl vs @ [tail]") simp_all
    have n'in: "n' \<in> set (tl vs @ [tail])" by (subst ch2) simp
    have rng: "\<forall>a \<in> set xs. 2 \<le> a \<and> a < length h" using R(2) by blast
    from n'in rng R(7) xs' have n'l: "n' < length h" by auto
    have dist: "distinct (head # xs @ [tail])" using R by auto
    have full: "head # xs @ [tail] = butlast (head # us) @ [p', c, n'] @ tl (tl vs @ [tail])"
      using ch1 ch2 xs' by (metis append_Cons append_Nil append_assoc)
    from dist have ne: "n' \<noteq> p'" "n' \<noteq> c" unfolding full by auto
    from wf have "follows h (head # xs @ [tail])" by (simp add: sortedList_def)
    then have "follows h ([p', c, n'] @ tl (tl vs @ [tail]))"
      unfolding full by (rule follows_append_right)
    then have nxc: "nextPtr (h ! c) = Some n'" by simp
    let ?h5 = "h[p' := (h ! p')\<lparr>nextPtr := Some n'\<rparr>]"
    let ?h6 = "?h5[n' := (h ! n')\<lparr>prevPtr := Some p'\<rparr>]"
    let ?h7 = "?h6[c := (h ! c)\<lparr>isNodeActive := False\<rparr>]"
    let ?f4 = "f0(p' := heldWrite, c := heldWrite, n' := heldWrite)"
    from lockCall_step [OF s0 C(1), of CallUpgradeLock self None heldWrite] f0 C(1)
    obtain s2 where r2: "lockCall CallUpgradeLock self (Some p') s0 = Inr s2"
      and n2: "nodes s2 = locked (f0(p' := heldWrite)) h"
      by (auto simp: lockMethod_single)
    from lockCall_step [OF n2 C(2), of CallUpgradeLock self None heldWrite] f0 C
    obtain s3 where r3: "lockCall CallUpgradeLock self (Some c) s2 = Inr s3"
      and n3: "nodes s3 = locked (f0(p' := heldWrite, c := heldWrite)) h"
      by (auto simp: lockMethod_single)
    have d3: "deref (Some c) s3 = Inr (nodes s3 ! c)"
      using n3 C(2) by (rule deref_node)
    have nx3: "nextPtr (nodes s3 ! c) = Some n'"
      using C(2) nxc by (simp add: n3)
    from lockCall_step [OF n3 n'l, of CallLockWrite self None heldWrite] f0 ne n'l
    obtain s4 where r4: "lockCall CallLockWrite self (Some n') s3 = Inr s4"
      and n4: "nodes s4 = locked ?f4 h"
      by (auto simp: lockMethod_single)
    from assign_step [OF n4 C(1), of "\<lambda>x. x\<lparr>nextPtr := Some n'\<rparr>"]
    obtain s5 where r5: "assign (Some p') (\<lambda>x. x\<lparr>nextPtr := Some n'\<rparr>) s4 = Inr s5"
      and n5: "nodes s5 = locked ?f4 ?h5"
      by auto
    have l5: "n' < length ?h5" using n'l by simp
    from assign_step [OF n5 l5, of "\<lambda>x. x\<lparr>prevPtr := Some p'\<rparr>"]
    obtain s6 where r6: "assign (Some n') (\<lambda>x. x\<lparr>prevPtr := Some p'\<rparr>) s5 = Inr s6"
      and n6': "nodes s6 = locked ?f4 (?h5[n' := (?h5 ! n')\<lparr>prevPtr := Some p'\<rparr>])"
      by auto
    from n6' ne n'l have n6: "nodes s6 = locked ?f4 ?h6" by simp
    have l6: "c < length ?h6" "p' < length ?h6" "n' < length ?h6" using C n'l by simp_all
    from assign_step [OF n6 l6(1), of "\<lambda>x. x\<lparr>isNodeActive := False\<rparr>"]
    obtain s7 where r7: "assign (Some c) (\<lambda>x. x\<lparr>isNodeActive := False\<rparr>) s6 = Inr s7"
      and n7': "nodes s7 = locked ?f4 (?h6[c := (?h6 ! c)\<lparr>isNodeActive := False\<rparr>])"
      by auto
    from n7' ne C have n7: "nodes s7 = locked ?f4 ?h7" by simp
    have l7: "c < length ?h7" "p' < length ?h7" "n' < length ?h7" using C n'l by simp_all
    from lockCall_step [OF n7 l7(2), of CallReleaseExclusiveLock self None newLock] C ne
    obtain s8 where r8: "lockCall CallReleaseExclusiveLock self (Some p') s7 = Inr s8"
      and n8: "nodes s8 = locked (?f4(p' := newLock)) ?h7"
      by (auto simp: lockMethod_single)
    from lockCall_step [OF n8 l7(1), of CallReleaseExclusiveLock self None newLock] C ne
    obtain s9 where r9: "lockCall CallReleaseExclusiveLock self (Some c) s8 = Inr s9"
      and n9: "nodes s9 = locked (?f4(p' := newLock, c := newLock)) ?h7"
      by (auto simp: lockMethod_single)
    from lockCall_step [OF n9 l7(3), of CallReleaseExclusiveLock self None newLock] C ne
    obtain s10 where r10: "lockCall CallReleaseExclusiveLock self (Some n') s9 = Inr s10"
      and n10': "nodes s10 = locked (?f4(p' := newLock, c := newLock, n' := newLock)) ?h7"
      by (auto simp: lockMethod_single)
    have "locked (?f4(p' := newLock, c := newLock, n' := newLock)) ?h7 = ?h7"
    proof (rule locked_id)
      fix a assume "a < length ?h7"
      then have a: "a < length h" by simp
      with sortedList_quiet [OF wf a] f0 C ne n'l
      show "(?f4(p' := newLock, c := newLock, n' := newLock)) a = lock (?h7 ! a)"
        by (auto simp: nth_list_update)
    qed
    with n10' have n10: "nodes s10 = ?h7" by simp
    have run: "Delete self k s = Some (Inr (True, s10))"
      using c(1,2)
      by (simp add: Delete_def rh fk dc kc r2 r3 d3 nx3 Let_def r4 r5 r6 r7 r8 r9 r10)
    have "sortedList ?h7 (us @ tl vs)"
      using wf xs' ch1 ch2 by (rule sortedList_delete)
    with run n10 show "\<exists>s'. Delete self k s = Some (Inr (True, s')) \<and>
             nodes s' = h[p' := (h ! p')\<lparr>nextPtr := Some n'\<rparr>,
                          n' := (h ! n')\<lparr>prevPtr := Some p'\<rparr>,
                          c := (h ! c)\<lparr>isNodeActive := False\<rparr>] \<and>
             sortedList (nodes s') (us @ tl vs)"
      by (intro exI [of _ s10]) simp
  }
qed


lemma present_iff:
  fixes g :: "nat \<Rightarrow> int"
  assumes "sorted_wrt (<) (map g xs)"
  shows "(dropWhile (\<lambda>a. g a < k) xs \<noteq> [] \<and> g (hd (dropWhile (\<lambda>a. g a < k) xs)) = k)
         \<longleftrightarrow> k \<in> g ` set xs"
  using assms
proof (induction xs)
  case Nil
  show ?case by simp
next
  case (Cons x xs)
  then show ?case by (cases "g x < k") force+
qed

lemma InsertHead_sortedList:
  fixes k :: int and v :: char
  assumes wf: "sortedList h xs" and s: "nodes s = h"
  defines "us \<equiv> takeWhile (\<lambda>a. key (h ! a) < k) xs"
    and "vs \<equiv> dropWhile (\<lambda>a. key (h ! a) < k) xs"
  defines "p' \<equiv> last (head # us)" and "c \<equiv> hd (vs @ [tail])"
  shows "vs \<noteq> [] \<and> key (h ! hd vs) = k \<Longrightarrow>
           \<exists>s'. InsertHead self k v s = Some (Inr (False, s')) \<and> nodes s' = h"
    and "\<not> (vs \<noteq> [] \<and> key (h ! hd vs) = k) \<Longrightarrow>
           \<exists>s'. InsertHead self k v s = Some (Inr (True, s')) \<and>
             nodes s' = (h @ [newNode k v (Some p') (Some c)])
                          [p' := (h ! p')\<lparr>nextPtr := Some (length h)\<rparr>,
                           c := (h ! c)\<lparr>prevPtr := Some (length h)\<rparr>] \<and>
             sortedList (nodes s') (us @ [length h] @ vs)"
proof -
  note R = sortedList_range [OF wf]
  from s sortedList_locked [OF wf] have sl: "nodes s = locked (\<lambda>a. newLock) h" by simp
  from lockCall_step [OF sl R(6), of CallLockMayWrite self None "heldMayWrite self"]
  obtain sh where rh: "lockCall CallLockMayWrite self (Some head) s = Inr sh"
    and nh: "nodes sh = locked ((\<lambda>a. newLock)(head := heldMayWrite self)) h"
    by (auto simp: lockMethod_single)
  have xs: "xs = [] @ xs" and hd: "head = last (head # [])" by simp_all
  have fh: "\<forall>a < length h. ((\<lambda>a. newLock)(head := heldMayWrite self)) a =
              (if a = head then heldMayWrite self else newLock)" by simp
  have lt: "\<forall>a \<in> set []. key (h ! a) < k" by simp
  note I = InsertFromPosition_sortedList [OF wf xs hd lt nh fh, of v,
      folded us_def vs_def, folded p'_def c_def, simplified]
  {
    assume "vs \<noteq> [] \<and> key (h ! hd vs) = k"
    with I(1) show "\<exists>s'. InsertHead self k v s = Some (Inr (False, s')) \<and> nodes s' = h"
      by (simp add: InsertHead_def rh)
  }
  {
    assume "\<not> (vs \<noteq> [] \<and> key (h ! hd vs) = k)"
    with I(2) show "\<exists>s'. InsertHead self k v s = Some (Inr (True, s')) \<and>
             nodes s' = (h @ [newNode k v (Some p') (Some c)])
                          [p' := (h ! p')\<lparr>nextPtr := Some (length h)\<rparr>,
                           c := (h ! c)\<lparr>prevPtr := Some (length h)\<rparr>] \<and>
             sortedList (nodes s') (us @ [length h] @ vs)"
      by (simp add: InsertHead_def rh)
  }
qed

lemma while_internal:
  assumes "head \<notin> set xs" "tail \<notin> set xs"
  shows "dropWhile (\<lambda>a. (key (h ! a) < k \<and> a \<noteq> tail) \<or> a = head) (xs @ [tail]) =
           dropWhile (\<lambda>a. key (h ! a) < k) xs @ [tail]"
  using assms by (induction xs) auto

lemma Search_sortedList:
  fixes k :: int
  assumes wf: "sortedList h xs" and s: "nodes s = h"
  defines "vs \<equiv> dropWhile (\<lambda>a. key (h ! a) < k) xs"
  shows "\<exists>s'. Search self k (Some old) s =
           Some (Inr (vs \<noteq> [] \<and> key (h ! hd vs) = k,
                      if vs \<noteq> [] \<and> key (h ! hd vs) = k then Some (data (h ! hd vs)) else Some old,
                      s')) \<and> nodes s' = h"
proof -
  note R = sortedList_range [OF wf]
  have rng: "\<forall>a \<in> set xs. 2 \<le> a \<and> a < length h" using R(2) by blast
  let ?P = "\<lambda>a. (key (h ! a) < k \<and> a \<noteq> tail) \<or> a = head"
  define c where "c = hd (vs @ [tail])"
  from s sortedList_locked [OF wf] have sl: "nodes s = locked (\<lambda>a. newLock) h" by simp
  from lockCall_step [OF sl R(6), of CallLockRead self None heldRead]
  obtain sh where rh: "lockCall CallLockRead self (Some head) s = Inr sh"
    and nh: "nodes sh = locked ((\<lambda>a. newLock)(head := heldRead)) h"
    by (auto simp: lockMethod_single)
  have "\<exists>s' f'. FindKey_while self k True (Some head) (Some head) sh =
           Some (Inr (if (key (h ! head) < k \<and> head \<noteq> tail) \<or> head = head
                      then Some (last (takeWhile ?P (head # xs @ [tail])))
                      else Some head,
                      Some (hd (dropWhile ?P (head # xs @ [tail]))), s')) \<and>
           nodes s' = locked f' h \<and>
           (\<forall>a < length h. f' a =
              (if a = hd (dropWhile ?P (head # xs @ [tail])) then heldRead else newLock))"
    using wf R rng nh by (intro FindKey_while_read) (auto simp: sortedList_def)
  moreover have "dropWhile ?P (head # xs @ [tail]) = vs @ [tail]"
    using while_internal [OF R(4,5), of h k] by (simp add: vs_def)
  ultimately obtain q s0 f0 where
    fk: "FindKey self (Some head) k True sh = Some (Inr (q, Some c, s0))"
    and s0: "nodes s0 = locked f0 h"
    and f0: "\<forall>a < length h. f0 a = (if a = c then heldRead else newLock)"
    unfolding c_def by (auto simp: FindKey_def)
  have cin: "c \<in> set (xs @ [tail])"
  proof (cases "vs = []")
    case True
    then show ?thesis by (simp add: c_def)
  next
    case False
    then have "hd vs \<in> set xs" unfolding vs_def by (rule hd_dropWhile_in)
    with False show ?thesis by (simp add: c_def)
  qed
  with rng R(7) have cl: "c < length h" by auto
  from cin wf have act: "isNodeActive (h ! c)" by (auto simp: sortedList_def)
  have ctail: "c = tail \<longleftrightarrow> vs = []"
  proof
    assume "c = tail"
    show "vs = []"
    proof (rule ccontr)
      assume "vs \<noteq> []"
      then have "c \<in> set xs" unfolding c_def vs_def by (simp add: hd_dropWhile_in)
      with R(5) \<open>c = tail\<close> show False by simp
    qed
  qed (simp add: c_def)
  have chd: "vs \<noteq> [] \<Longrightarrow> c = hd vs" by (simp add: c_def)
  have dc: "deref (Some c) s0 = Inr (nodes s0 ! c)"
    using s0 cl by (rule deref_node)
  have kc: "key (nodes s0 ! c) = key (h ! c)" "isNodeActive (nodes s0 ! c)"
    "data (nodes s0 ! c) = data (h ! c)"
    using cl act by (simp_all add: s0)
  from lockCall_step [OF s0 cl, of CallReleaseSharedLock self None newLock] f0 cl
  obtain s1 where r1: "lockCall CallReleaseSharedLock self (Some c) s0 = Inr s1"
    and n1: "nodes s1 = locked (f0(c := newLock)) h"
    by (auto simp: lockMethod_single)
  have "locked (f0(c := newLock)) h = h"
    using f0 sortedList_quiet [OF wf] by (intro locked_id) simp
  with n1 have n1': "nodes s1 = h" by simp
  have res: "(key (h ! c) = k \<and> c \<noteq> tail) = (vs \<noteq> [] \<and> key (h ! hd vs) = k)"
    using ctail chd by auto
  show ?thesis
  proof (cases "vs \<noteq> [] \<and> key (h ! hd vs) = k")
    case True
    with res chd have c: "key (h ! c) = k" "c \<noteq> tail" "hd vs = c" by auto
    from True have T: "vs \<noteq> []" by simp
    show ?thesis
      by (intro exI [of _ s1]) (simp add: Search_def rh fk dc kc r1 Let_def c T n1')
  next
    case False
    with res have c: "(key (h ! c) = k \<and> c \<noteq> tail) = False" by simp
    from False have F: "(vs \<noteq> [] \<and> key (h ! hd vs) = k) = False" by simp
    show ?thesis
      by (intro exI [of _ s1]) (simp add: Search_def rh fk dc kc r1 Let_def c F n1')
  qed
qed

lemma follows_prev:
  "follows h (zs @ a # b # ws) \<Longrightarrow> prevPtr (h ! b) = Some a"
  by (drule follows_append_right) simp

lemma last_chain_prev:
  assumes "follows h (head # xs @ [b] @ ws)"
  shows "prevPtr (h ! b) = Some (last (head # xs))"
proof -
  have "head # xs @ [b] @ ws = butlast (head # xs) @ last (head # xs) # b # ws"
    by (simp del: butlast.simps last.simps add: append_butlast_last_id)
  with assms show ?thesis by (metis follows_prev)
qed

text \<open>The backward walk of InsertTail over the nodes with larger keys.\<close>

lemma InsertTail_while_back:
  fixes k :: int
  assumes wf: "sortedList h xs" and xs: "xs = as @ bs @ cs"
    and gt: "\<forall>b \<in> set bs. k < key (h ! b)"
    and stop: "as = [] \<or> key (h ! last as) \<le> k"
    and s: "nodes s = locked f h"
    and f: "\<forall>a < length h. f a = (if a = last (head # as @ bs) then heldMayWrite self else newLock)"
  shows "\<exists>s' f'. InsertTail_while self k (Some (last (head # as @ bs))) s =
           Some (Inr (Some (last (head # as)), s')) \<and>
           nodes s' = locked f' h \<and>
           (\<forall>a < length h. f' a = (if a = last (head # as) then heldMayWrite self else newLock))"
  using xs gt s f
proof (induction bs arbitrary: s f cs rule: rev_induct)
  case Nil
  note R = sortedList_range [OF wf]
  have rng: "\<forall>a \<in> set xs. 2 \<le> a \<and> a < length h" using R(2) by blast
  define p where "p = last (head # as)"
  have pin: "p \<in> set (head # as)" unfolding p_def by (rule last_in_set) simp
  with rng R(6) Nil.prems(1) have pl: "p < length h" by auto
  from pin wf Nil.prems(1) have act: "isNodeActive (h ! p)" by (auto simp: sortedList_def)
  have cond: "(k < key (h ! p) \<and> p \<noteq> head) = False"
    using stop by (cases "as = []") (auto simp: p_def)
  have d: "deref (Some p) s = Inr (nodes s ! p)"
    using Nil.prems(3) pl by (rule deref_node)
  have kp: "key (nodes s ! p) = key (h ! p)" "isNodeActive (nodes s ! p)"
    using pl act by (simp_all add: Nil.prems(3))
  have "InsertTail_while self k (Some p) s = Some (Inr (Some p, s))"
    by (subst InsertTail_while.simps) (simp add: d kp cond)
  with Nil.prems(3,4) show ?case
    unfolding append_Nil2 p_def [symmetric] by blast
next
  case (snoc b bs)
  note R = sortedList_range [OF wf]
  have rng: "\<forall>a \<in> set xs. 2 \<le> a \<and> a < length h" using R(2) by blast
  define q where "q = last (head # as @ bs)"
  have lb: "last (head # as @ bs @ [b]) = b" by simp
  from snoc.prems(1) rng have b: "b < length h" "b \<noteq> head" "k < key (h ! b)"
    using snoc.prems(2) R(4) by auto
  have qin: "q \<in> set (head # as @ bs)" unfolding q_def by (rule last_in_set) simp
  with rng R(6) snoc.prems(1) have ql: "q < length h" by auto
  from qin R(3,4) snoc.prems(1) have qb: "q \<noteq> b" by auto
  from wf snoc.prems(1) have "follows h (head # (as @ bs) @ [b] @ (cs @ [tail]))"
    by (simp add: sortedList_def)
  then have pv: "prevPtr (h ! b) = Some q" unfolding q_def by (rule last_chain_prev)
  have d: "deref (Some b) s = Inr (nodes s ! b)"
    using snoc.prems(3) b(1) by (rule deref_node)
  have kb: "key (nodes s ! b) = key (h ! b)" "prevPtr (nodes s ! b) = Some q"
    using b(1) pv by (simp_all add: snoc.prems(3))
  from snoc.prems(4) b(1) have fb: "f b = heldMayWrite self" unfolding lb by simp
  from snoc.prems(4) ql qb have fq: "f q = newLock" unfolding lb by simp
  from lockCall_step [OF snoc.prems(3) b(1), of CallReleaseSharedLock self None newLock] fb
  obtain s1 where r1: "lockCall CallReleaseSharedLock self (Some b) s = Inr s1"
    and n1: "nodes s1 = locked (f(b := newLock)) h"
    by (auto simp: lockMethod_single)
  from lockCall_step [OF n1 ql, of CallLockMayWrite self None "heldMayWrite self"] fq qb
  obtain s2 where r2: "lockCall CallLockMayWrite self (Some q) s1 = Inr s2"
    and n2: "nodes s2 = locked (f(b := newLock, q := heldMayWrite self)) h"
    by (auto simp: lockMethod_single)
  have f2: "\<forall>a < length h. (f(b := newLock, q := heldMayWrite self)) a =
              (if a = last (head # as @ bs) then heldMayWrite self else newLock)"
    using snoc.prems(4) unfolding lb q_def [symmetric] by auto
  have xs': "xs = as @ bs @ (b # cs)" using snoc.prems(1) by simp
  have gt': "\<forall>b \<in> set bs. k < key (h ! b)" using snoc.prems(2) by simp
  from snoc.IH [OF xs' gt' n2 f2]
  have "\<exists>s' f'. InsertTail_while self k (Some q) s2 =
           Some (Inr (Some (last (head # as)), s')) \<and>
           nodes s' = locked f' h \<and>
           (\<forall>a < length h. f' a = (if a = last (head # as) then heldMayWrite self else newLock))"
    unfolding q_def .
  then show ?case
    unfolding lb using b
    by (subst InsertTail_while.simps) (simp add: d kb r1 r2)
qed

lemma sorted_dropWhile_gt:
  fixes g :: "nat \<Rightarrow> int"
  assumes "sorted_wrt (<) (map g xs)" "b \<in> set (dropWhile (\<lambda>a. g a \<le> k) xs)"
  shows "k < g b"
  using assms by (induction xs) (auto split: if_splits)

lemma sorted_le_last:
  fixes g :: "nat \<Rightarrow> int"
  assumes "sorted_wrt (<) (map g xs)" "y \<in> set xs"
  shows "g y \<le> g (last xs)"
  using assms
proof (induction xs)
  case Nil
  then show ?case by simp
next
  case (Cons x xs)
  show ?case
  proof (cases "xs = []")
    case True
    with Cons.prems show ?thesis by simp
  next
    case False
    then have "last xs \<in> set xs" by simp
    with Cons.prems(1) have "g x \<le> g (last xs)" by (simp add: less_imp_le)
    with Cons False show ?thesis by auto
  qed
qed

lemma last_takeWhile:
  "takeWhile P xs \<noteq> [] \<Longrightarrow> P (last (takeWhile P xs))"
  by (metis last_in_set set_takeWhileD)

lemma InsertTail_sortedList:
  fixes k :: int and v :: char
  assumes wf: "sortedList h xs" and s: "nodes s = h"
  defines "as \<equiv> takeWhile (\<lambda>a. key (h ! a) \<le> k) xs"
    and "bs \<equiv> dropWhile (\<lambda>a. key (h ! a) \<le> k) xs"
  defines "p \<equiv> last (head # as)" and "c \<equiv> hd (bs @ [tail])"
  shows "k \<in> (\<lambda>a. key (h ! a)) ` set xs \<Longrightarrow>
           \<exists>s'. InsertTail self k v s = Some (Inr (False, s')) \<and> nodes s' = h"
    and "k \<notin> (\<lambda>a. key (h ! a)) ` set xs \<Longrightarrow>
           \<exists>s'. InsertTail self k v s = Some (Inr (True, s')) \<and>
             nodes s' = (h @ [newNode k v (Some p) (Some c)])
                          [p := (h ! p)\<lparr>nextPtr := Some (length h)\<rparr>,
                           c := (h ! c)\<lparr>prevPtr := Some (length h)\<rparr>] \<and>
             sortedList (nodes s') (as @ [length h] @ bs)"
proof -
  note R = sortedList_range [OF wf]
  have rng: "\<forall>a \<in> set xs. 2 \<le> a \<and> a < length h" using R(2) by blast
  from wf have so: "sorted_wrt (<) (map (\<lambda>a. key (h ! a)) xs)" by (simp add: sortedList_def)
  have xs: "xs = as @ bs" by (simp add: as_def bs_def)
  have xs0: "xs = as @ bs @ []" by (simp add: as_def bs_def)
  have gt: "\<forall>b \<in> set bs. k < key (h ! b)"
    unfolding bs_def using sorted_dropWhile_gt [OF so] by blast
  have stop: "as = [] \<or> key (h ! last as) \<le> k"
    unfolding as_def using last_takeWhile [of "\<lambda>a. key (h ! a) \<le> k" xs] by blast
  define p0 where "p0 = last (head # as @ bs)"
  have p0in: "p0 \<in> set (head # xs)" unfolding p0_def xs by (rule last_in_set) simp
  with rng R(6) have p0l: "p0 < length h" by auto
  from p0in R(5) have p0t: "p0 \<noteq> tail" by auto
  from wf have "follows h (head # xs @ [tail] @ [])" by (simp add: sortedList_def)
  then have pv: "prevPtr (h ! tail) = Some p0" unfolding p0_def xs [symmetric] by (rule last_chain_prev)
  from s sortedList_locked [OF wf] have sl: "nodes s = locked (\<lambda>a. newLock) h" by simp
  from lockCall_step [OF sl R(7), of CallLockRead self None heldRead]
  obtain s1 where r1: "lockCall CallLockRead self (Some tail) s = Inr s1"
    and n1: "nodes s1 = locked ((\<lambda>a. newLock)(tail := heldRead)) h"
    by (auto simp: lockMethod_single)
  have d1: "deref (Some tail) s1 = Inr (nodes s1 ! tail)"
    using n1 R(7) by (rule deref_node)
  have pv1: "prevPtr (nodes s1 ! tail) = Some p0"
    using R(7) pv by (simp add: n1)
  from lockCall_step [OF n1 R(7), of CallReleaseSharedLock self None newLock]
  obtain s2 where r2: "lockCall CallReleaseSharedLock self (Some tail) s1 = Inr s2"
    and n2: "nodes s2 = locked ((\<lambda>a. newLock)(tail := heldRead, tail := newLock)) h"
    by (auto simp: lockMethod_single)
  from lockCall_step [OF n2 p0l, of CallLockMayWrite self None "heldMayWrite self"] p0t
  obtain s3 where r3: "lockCall CallLockMayWrite self (Some p0) s2 = Inr s3"
    and n3: "nodes s3 = locked ((\<lambda>a. newLock)(tail := heldRead, tail := newLock,
                                   p0 := heldMayWrite self)) h"
    by (auto simp: lockMethod_single)
  have f3: "\<forall>a < length h. ((\<lambda>a. newLock)(tail := heldRead, tail := newLock,
                                   p0 := heldMayWrite self)) a =
              (if a = last (head # as @ bs) then heldMayWrite self else newLock)"
    unfolding p0_def [symmetric] by simp
  from InsertTail_while_back [OF wf xs0 gt stop n3 f3] obtain s4 f4 where
    lp: "InsertTail_while self k (Some p0) s3 = Some (Inr (Some p, s4))"
    and n4: "nodes s4 = locked f4 h"
    and f4: "\<forall>a < length h. f4 a = (if a = p then heldMayWrite self else newLock)"
    unfolding p0_def p_def by blast
  have pin: "p \<in> set (head # as)" unfolding p_def by (rule last_in_set) simp
  with rng R(6) xs have pl: "p < length h" by auto
  have d4: "deref (Some p) s4 = Inr (nodes s4 ! p)"
    using n4 pl by (rule deref_node)
  have kp: "key (nodes s4 ! p) = key (h ! p)"
    using pl by (simp add: n4)
  have phead: "p = head \<longleftrightarrow> as = []"
  proof
    assume "p = head"
    show "as = []"
    proof (rule ccontr)
      assume "as \<noteq> []"
      then have "p \<in> set as" by (simp add: p_def)
      with R(4) xs \<open>p = head\<close> show False by simp
    qed
  qed (simp add: p_def)
  have dup_iff: "(p \<noteq> head \<and> key (h ! p) = k) \<longleftrightarrow> k \<in> (\<lambda>a. key (h ! a)) ` set xs"
  proof
    assume a: "p \<noteq> head \<and> key (h ! p) = k"
    with phead have "p \<in> set as" by (simp add: p_def)
    with a xs show "k \<in> (\<lambda>a. key (h ! a)) ` set xs" by auto
  next
    assume "k \<in> (\<lambda>a. key (h ! a)) ` set xs"
    then obtain y where y: "y \<in> set xs" "key (h ! y) = k" by auto
    with gt xs have yas: "y \<in> set as" by auto
    then have ne: "as \<noteq> []" by auto
    from so xs have "sorted_wrt (<) (map (\<lambda>a. key (h ! a)) as)" by (simp add: sorted_wrt_append)
    from sorted_le_last [OF this yas] y(2) stop ne have "key (h ! last as) = k" by simp
    with ne phead show "p \<noteq> head \<and> key (h ! p) = k" by (simp add: p_def)
  qed
  {
    assume "k \<in> (\<lambda>a. key (h ! a)) ` set xs"
    with dup_iff have dup: "p \<noteq> head" "key (h ! p) = k" by simp_all
    from lockCall_step [OF n4 pl, of CallReleaseSharedLock self None newLock] f4 pl
    obtain s5 where r5: "lockCall CallReleaseSharedLock self (Some p) s4 = Inr s5"
      and n5: "nodes s5 = locked (f4(p := newLock)) h"
      by (auto simp: lockMethod_single)
    have "locked (f4(p := newLock)) h = h"
      using f4 sortedList_quiet [OF wf] by (intro locked_id) simp
    with n5 have "nodes s5 = h" by simp
    then show "\<exists>s'. InsertTail self k v s = Some (Inr (False, s')) \<and> nodes s' = h"
      by (simp add: InsertTail_def r1 d1 pv1 r2 r3 lp d4 kp dup r5)
  }
  {
    assume absent: "k \<notin> (\<lambda>a. key (h ! a)) ` set xs"
    with dup_iff have nodup: "(p \<noteq> head \<and> key (h ! p) = k) = False" by simp
    have lt: "\<forall>a \<in> set as. key (h ! a) < k"
    proof
      fix a assume a: "a \<in> set as"
      then have "key (h ! a) \<le> k" unfolding as_def by (auto dest: set_takeWhileD)
      moreover from a xs absent have "key (h ! a) \<noteq> k" by auto
      ultimately show "key (h ! a) < k" by simp
    qed
    have tw: "takeWhile (\<lambda>a. key (h ! a) < k) bs = []" "dropWhile (\<lambda>a. key (h ! a) < k) bs = bs"
      using gt by (cases bs; force)+
    have nd: "\<not> (bs \<noteq> [] \<and> key (h ! hd bs) = k)"
      using gt by (cases bs) auto
    have pd: "p = last (head # as)" by (simp add: p_def)
    from InsertFromPosition_sortedList(2) [OF wf xs pd lt n4 f4, of v, unfolded tw, OF nd]
    obtain s' where "InsertFromPosition self (Some p) k v s4 = Some (Inr (True, s'))"
      "nodes s' = (h @ [newNode k v (Some p) (Some c)])
                          [p := (h ! p)\<lparr>nextPtr := Some (length h)\<rparr>,
                           c := (h ! c)\<lparr>prevPtr := Some (length h)\<rparr>]"
      "sortedList (nodes s') (as @ [length h] @ bs)"
      unfolding c_def by auto
    then show "\<exists>s'. InsertTail self k v s = Some (Inr (True, s')) \<and>
             nodes s' = (h @ [newNode k v (Some p) (Some c)])
                          [p := (h ! p)\<lparr>nextPtr := Some (length h)\<rparr>,
                           c := (h ! c)\<lparr>prevPtr := Some (length h)\<rparr>] \<and>
             sortedList (nodes s') (as @ [length h] @ bs)"
      by (simp add: InsertTail_def r1 d1 pv1 r2 r3 lp d4 kp nodup)
  }
qed

subsection \<open>The chain of a well-formed list, and sequences of calls\<close>

lemma walk_follows:
  assumes "follows h (a # zs)" "nextPtr (h ! last (a # zs)) = None" "length zs \<le> n"
    and "\<forall>b \<in> set (a # zs). b < length h"
  shows "walk h n a = a # zs"
  using assms
proof (induction zs arbitrary: a n)
  case Nil
  then show ?case by (cases n) simp_all
next
  case (Cons z zs)
  then obtain m where n: "n = Suc m" by (cases n) auto
  from Cons.prems have "walk h m z = z # zs"
    by (intro Cons.IH) (auto simp: n)
  with Cons.prems show ?case by (simp add: n)
qed

lemma nextChain_sortedList:
  assumes wf: "sortedList h xs"
  shows "nextChain h = head # xs @ [tail]"
proof -
  note R = sortedList_range [OF wf]
  have d: "distinct (head # xs @ [tail])" using R by auto
  have sub: "set (head # xs @ [tail]) \<subseteq> {..<length h}" using R by auto
  have "length (head # xs @ [tail]) = card (set (head # xs @ [tail]))"
    using d by (rule distinct_card [symmetric])
  also have "\<dots> \<le> card {..<length h}" using sub by (intro card_mono) simp_all
  finally have len: "length (xs @ [tail]) \<le> length h" by simp
  show ?thesis
    unfolding nextChain_def
    using wf len sub by (intro walk_follows) (auto simp: sortedList_def)
qed

lemma follows_nth:
  "follows h zs \<Longrightarrow> Suc i < length zs \<Longrightarrow>
   nextPtr (h ! (zs ! i)) = Some (zs ! Suc i) \<and> prevPtr (h ! (zs ! Suc i)) = Some (zs ! i)"
proof (induction h zs arbitrary: i rule: follows.induct)
  case (1 h a b zs)
  then show ?case by (cases i) auto
qed simp_all

lemma follows_inverse:
  assumes fo: "follows h zs" and d: "distinct zs" and zs: "zs \<noteq> []"
    and first: "prevPtr (h ! hd zs) = None" and final: "nextPtr (h ! last zs) = None"
    and a: "a \<in> set zs" and b: "b \<in> set zs"
  shows "nextPtr (h ! a) = Some b \<longleftrightarrow> prevPtr (h ! b) = Some a"
proof -
  from a obtain i where i: "i < length zs" "zs ! i = a" by (auto simp: in_set_conv_nth)
  from b obtain j where j: "j < length zs" "zs ! j = b" by (auto simp: in_set_conv_nth)
  show ?thesis
  proof
    assume nx: "nextPtr (h ! a) = Some b"
    have "Suc i < length zs"
    proof (rule ccontr)
      assume "\<not> Suc i < length zs"
      with i have "i = length zs - 1" by simp
      with i zs have "a = last zs" by (simp add: last_conv_nth)
      with final nx show False by simp
    qed
    from follows_nth [OF fo this] i nx show "prevPtr (h ! b) = Some a" by simp
  next
    assume pv: "prevPtr (h ! b) = Some a"
    have "j \<noteq> 0"
    proof
      assume "j = 0"
      with j zs have "b = hd zs" by (simp add: hd_conv_nth)
      with first pv show False by simp
    qed
    then obtain j' where j': "j = Suc j'" by (cases j) auto
    from follows_nth [OF fo, of j'] j j' pv have "zs ! j' = a" by simp
    with follows_nth [OF fo, of j'] j j' show "nextPtr (h ! a) = Some b" by simp
  qed
qed

lemma sortedList_initial: "sortedList (nodes ConcurrentDoublyLinkedList) []"
  by (simp add: sortedList_def ConcurrentDoublyLinkedList_def newNode_def head_def tail_def
        less_Suc_eq)

lemma perform_sortedList:
  assumes "sortedList (nodes s) xs"
  shows "\<exists>s' xs'. perform self c s = Some (Inr s') \<and> sortedList (nodes s') xs'"
proof (cases c)
  case (CallInsertHead k v)
  let ?dup = "dropWhile (\<lambda>a. key (nodes s ! a) < k) xs \<noteq> [] \<and>
              key (nodes s ! hd (dropWhile (\<lambda>a. key (nodes s ! a) < k) xs)) = k"
  show ?thesis
  proof (cases ?dup)
    case True
    from InsertHead_sortedList(1) [OF assms refl True, of self v] assms CallInsertHead
    show ?thesis by auto
  next
    case False
    from InsertHead_sortedList(2) [OF assms refl False, of self v] CallInsertHead
    show ?thesis by auto
  qed
next
  case (CallInsertTail k v)
  show ?thesis
  proof (cases "k \<in> (\<lambda>a. key (nodes s ! a)) ` set xs")
    case True
    from InsertTail_sortedList(1) [OF assms refl True, of self v] assms CallInsertTail
    show ?thesis by auto
  next
    case False
    from InsertTail_sortedList(2) [OF assms refl False, of self v] CallInsertTail
    show ?thesis by auto
  qed
next
  case (CallDelete k)
  let ?found = "dropWhile (\<lambda>a. key (nodes s ! a) < k) xs \<noteq> [] \<and>
              key (nodes s ! hd (dropWhile (\<lambda>a. key (nodes s ! a) < k) xs)) = k"
  show ?thesis
  proof (cases ?found)
    case True
    from Delete_sortedList(1) [OF assms refl True, of self] CallDelete
    show ?thesis by auto
  next
    case False
    from Delete_sortedList(2) [OF assms refl False, of self] assms CallDelete
    show ?thesis by auto
  qed
next
  case (CallSearch k dataPtr)
  show ?thesis
  proof (cases dataPtr)
    case None
    with assms CallSearch show ?thesis by (auto simp: Search_def)
  next
    case (Some old)
    from Search_sortedList [OF assms refl, of self k old] assms CallSearch Some
    show ?thesis by auto
  qed
qed

lemma performAll_sortedList:
  assumes "sortedList (nodes s) xs"
  shows "\<exists>s' xs'. performAll self cs s = Some (Inr s') \<and> sortedList (nodes s') xs'"
  using assms
proof (induction cs arbitrary: s xs)
  case Nil
  then show ?case by auto
next
  case (Cons c cs)
  from perform_sortedList [OF Cons.prems, of self c] obtain s1 xs1 where
    "perform self c s = Some (Inr s1)" "sortedList (nodes s1) xs1" by blast
  with Cons.IH [of s1 xs1] show ?case by simp
qed

lemmas list_eval = InsertHead_def InsertTail_def Delete_def Search_def InsertFromPosition_def
  FindKey_def AdvanceAndLockReadMayWrite_def lockCall_def deref_def assign_def
  ConcurrentDoublyLinkedList_def newNode_def head_def tail_def Let_def

lemma present_split:
  fixes g :: "nat \<Rightarrow> int"
  assumes so: "sorted_wrt (<) (map g xs)" and v: "c \<in> set xs"
  shows "\<exists>us ws. xs = us @ c # ws \<and> takeWhile (\<lambda>a. g a < g c) xs = us \<and>
           dropWhile (\<lambda>a. g a < g c) xs = c # ws"
proof -
  from v obtain us ws where xs: "xs = us @ c # ws" by (auto dest: split_list)
  from so have "\<forall>a \<in> set us. g a < g c"
    unfolding xs by (simp add: sorted_wrt_append)
  then have "takeWhile (\<lambda>a. g a < g c) xs = us" "dropWhile (\<lambda>a. g a < g c) xs = c # ws"
    unfolding xs by simp_all
  with xs show ?thesis by blast
qed

lemma ReleaseSharedLock_mayWriter:
  assumes "mayWriterThreadId l = Some self" "readersNumber l \<noteq> 0"
  shows "ReleaseSharedLock self l =
           Inr (Returned (TryNotifyingNext (l\<lparr>readersNumber := readersNumber l - 1,
                                              mayWriterThreadId := None\<rparr>))
                         (l\<lparr>readersNumber := readersNumber l - 1, mayWriterThreadId := None\<rparr>))"
  using assms by (simp add: ReleaseSharedLock_def Let_def word_greater_zero_iff)

lemma follows_adjacent:
  assumes "follows h (us @ vs)" "us \<noteq> []" "vs \<noteq> []"
  shows "nextPtr (h ! last us) = Some (hd vs)"
proof -
  from assms(2) have "us = butlast us @ [last us]" by simp
  then have "us @ vs = butlast us @ (last us # vs)" by (metis append_Cons append_Nil append_assoc)
  with assms(1) have "follows h (butlast us @ (last us # vs))" by simp
  then have "follows h (last us # vs)" by (rule follows_append_right)
  then show ?thesis using assms(3) by (rule follows_next)
qed

lemma locked_single:
  assumes "a < length h" "\<forall>b < length h. lock (h ! b) = newLock"
  shows "h[a := (h ! a)\<lparr>lock := l\<rparr>] = locked (\<lambda>b. if b = a then l else newLock) h"
  using assms by (intro nth_equalityI) (auto simp: nth_list_update)

lemma find_candidate:
  "List.find (\<lambda>a. a \<noteq> head \<and> (k \<le> key (h ! a) \<or> a = tail)) zs =
     (case dropWhile (\<lambda>a. (key (h ! a) < k \<and> a \<noteq> tail) \<or> a = head) zs of
        [] \<Rightarrow> None | x # _ \<Rightarrow> Some x)"
proof -
  have "Not \<circ> (\<lambda>a. a \<noteq> head \<and> (k \<le> key (h ! a) \<or> a = tail)) =
        (\<lambda>a. (key (h ! a) < k \<and> a \<noteq> tail) \<or> a = head)"
    by (auto simp: fun_eq_iff)
  then show ?thesis by (simp add: find_dropWhile)
qed

lemma FindKey_read:
  fixes k :: int
  assumes wf: "sortedList h xs" and xs: "xs = as @ bs" and p: "p = last (head # as)"
    and s: "nodes s = locked f h"
    and f: "\<forall>a < length h. f a = (if a = p then heldRead else newLock)"
  defines "P \<equiv> \<lambda>a. (key (h ! a) < k \<and> a \<noteq> tail) \<or> a = head"
  defines "c \<equiv> hd (dropWhile P (p # bs @ [tail]))"
  shows "\<exists>p' s' f'. FindKey self (Some p) k True s = Some (Inr (Some p', Some c, s')) \<and>
           nodes s' = locked f' h \<and>
           (\<forall>a < length h. f' a = (if a = c then heldRead else newLock)) \<and>
           (if c = p then p' = p else nextPtr (h ! p') = Some c) \<and>
           c \<noteq> head \<and> c < length h \<and> p' < length h \<and>
           List.find (\<lambda>a. a \<noteq> head \<and> (k \<le> key (h ! a) \<or> a = tail)) (p # bs @ [tail]) = Some c"
proof -
  note R = sortedList_range [OF wf]
  from wf have fo: "follows h (head # xs @ [tail])" by (simp add: sortedList_def)
  have "head # xs @ [tail] = butlast (head # as) @ (p # bs @ [tail])"
    unfolding p xs by (simp del: butlast.simps last.simps add: append_butlast_last_id [of "head # as", symmetric, simplified])
  with fo have "follows h (butlast (head # as) @ (p # bs @ [tail]))" by simp
  then have fo': "follows h (p # bs @ [tail])" by (rule follows_append_right)
  have d: "distinct (head # as @ bs @ [tail])" using R(3,4,5) by (auto simp: xs)
  have pin: "p \<in> set (head # as)" unfolding p by (rule last_in_set) simp
  have d': "distinct (p # bs @ [tail])" using d pin by auto
  have bnd: "\<forall>a \<in> set (p # bs @ [tail]). a < length h" using R pin by (auto simp: xs)
  have hn: "head \<notin> set (bs @ [tail])" using R(4) by (auto simp: xs)
  have nt: "\<not> P tail" by (simp add: P_def)
  have dne: "dropWhile P (p # bs @ [tail]) \<noteq> []"
    using nt by (simp add: dropWhile_eq_Nil_conv)
  have cin: "c \<in> set (p # bs @ [tail])"
    unfolding c_def using dne by (metis hd_in_set set_dropWhileD)
  have nPc: "\<not> P c" unfolding c_def using dne by (rule hd_dropWhile)
  from FindKey_while_read [OF fo' _ d' bnd hn s f, of self k "Some p"] obtain s' f' where
    run: "FindKey_while self k True (Some p) (Some p) s =
           Some (Inr (if P p then Some (last (takeWhile P (p # bs @ [tail]))) else Some p,
                      Some c, s'))"
    and ns: "nodes s' = locked f' h"
    and f': "\<forall>a < length h. f' a = (if a = c then heldRead else newLock)"
    unfolding P_def c_def by auto
  define p' where "p' = (if P p then last (takeWhile P (p # bs @ [tail])) else p)"
  have run': "FindKey self (Some p) k True s = Some (Inr (Some p', Some c, s'))"
    using run by (simp add: FindKey_def p'_def)
  have adj: "if c = p then p' = p else nextPtr (h ! p') = Some c"
  proof (cases "P p")
    case False
    then show ?thesis by (simp add: c_def p'_def)
  next
    case True
    then have "c = hd (dropWhile P (bs @ [tail]))" by (simp add: c_def)
    moreover have "dropWhile P (bs @ [tail]) \<noteq> []" using dne True by simp
    ultimately have "c \<in> set (bs @ [tail])" by (metis hd_in_set set_dropWhileD)
    with d' have ne: "c \<noteq> p" by auto
    have tw: "takeWhile P (p # bs @ [tail]) \<noteq> []" using True by simp
    from fo' have "follows h (takeWhile P (p # bs @ [tail]) @ dropWhile P (p # bs @ [tail]))"
      by simp
    from follows_adjacent [OF this tw dne] have "nextPtr (h ! p') = Some c"
      using True by (simp add: p'_def c_def)
    with ne show ?thesis by simp
  qed
  have ch: "c \<noteq> head" using nPc by (simp add: P_def)
  have cl: "c < length h" using cin bnd by blast
  have fi: "List.find (\<lambda>a. a \<noteq> head \<and> (k \<le> key (h ! a) \<or> a = tail)) (p # bs @ [tail]) = Some c"
    unfolding find_candidate using dne
    by (cases "dropWhile (\<lambda>a. (key (h ! a) < k \<and> a \<noteq> tail) \<or> a = head) (p # bs @ [tail])")
       (simp_all add: c_def P_def)
  have "p' \<in> set (p # bs @ [tail])"
  proof (cases "P p")
    case True
    then have "takeWhile P (p # bs @ [tail]) \<noteq> []" by simp
    then have "last (takeWhile P (p # bs @ [tail])) \<in> set (takeWhile P (p # bs @ [tail]))"
      by (rule last_in_set)
    then have "last (takeWhile P (p # bs @ [tail])) \<in> set (p # bs @ [tail])"
      by (rule set_takeWhileD [THEN conjunct1])
    with True show ?thesis by (simp only: p'_def if_True)
  next
    case False
    then show ?thesis by (simp add: p'_def)
  qed
  with bnd have pl: "p' < length h" by blast
  from run' ns f' adj ch cl pl fi show ?thesis by blast
qed

lemma FindKey_mayWrite_candidate:
  assumes wf: "sortedList h xs" and xs: "xs = as @ bs" and p: "p = last (head # as)"
    and s: "nodes s = locked f h"
    and f: "\<forall>a < length h. f a = (if a = p then heldMayWrite self else newLock)"
  shows "\<exists>p' c s' f'. FindKey self (Some p) k False s = Some (Inr (Some p', Some c, s')) \<and>
           nodes s' = locked f' h \<and>
           (\<forall>a < length h. f' a = (if a = p' \<or> a = c then heldMayWrite self else newLock)) \<and>
           nextPtr (h ! p') = Some c \<and>
           c \<noteq> head \<and> c < length h \<and> p' < length h \<and>
           List.find (\<lambda>a. a \<noteq> head \<and> (k \<le> key (h ! a) \<or> a = tail)) (bs @ [tail]) = Some c"
proof -
  note R = sortedList_range [OF wf]
  define p' where "p' = last (p # takeWhile (\<lambda>a. key (h ! a) < k) bs)"
  define c where "c = hd (dropWhile (\<lambda>a. key (h ! a) < k) bs @ [tail])"
  from FindKey_mayWrite [OF wf xs p s f, of k] obtain s' f' where
    run: "FindKey self (Some p) k False s = Some (Inr (Some p', Some c, s'))"
    and ns: "nodes s' = locked f' h"
    and f': "\<forall>a < length h. f' a = (if a = p' \<or> a = c then heldMayWrite self else newLock)"
    unfolding p'_def c_def by blast
  note cp = candidate_pair [OF wf xs p, of k, folded p'_def c_def]
  from wf have fo: "follows h (head # xs @ [tail])" by (simp add: sortedList_def)
  have "follows h ((butlast (head # as @ takeWhile (\<lambda>a. key (h ! a) < k) bs) @ [p']) @
       (c # tl (dropWhile (\<lambda>a. key (h ! a) < k) bs @ [tail])))"
    using fo unfolding cp(6) by simp
  from follows_adjacent [OF this] have adj: "nextPtr (h ! p') = Some c" by simp
  have hb: "head \<notin> set bs" "tail \<notin> set bs" using R(4,5) by (auto simp: xs)
  have fi: "List.find (\<lambda>a. a \<noteq> head \<and> (k \<le> key (h ! a) \<or> a = tail)) (bs @ [tail]) = Some c"
    unfolding find_candidate while_internal [OF hb]
    by (cases "dropWhile (\<lambda>a. key (h ! a) < k) bs @ [tail]") (simp_all add: c_def)
  from run ns f' adj cp(1,2,5) fi show ?thesis by blast
qed

lemma sortedList_example:
  "sortedList [newNode 0 CHR ''0'' None (Some 2), newNode 0 CHR ''0'' (Some 2) None,
               newNode 5 CHR ''a'' (Some 0) (Some 1)] [2]"
  by (simp add: sortedList_def newNode_def head_def tail_def less_Suc_eq numeral_3_eq_3 nth_Cons')

lemma find_SomeD: "List.find P xs = Some x \<Longrightarrow> P x"
  by (auto simp: find_Some_iff)

section \<open>The lock: claims\<close>

text \<open>
  Claim C3, as stated: an acquire request proceeds without queueing if and only if the
  lock state permits its mode and the wait queue is empty. This fails: with one READ entry
  in the queue and no writer holding the lock, \<open>ShouldThreadWait\<close> lets a READ request
  proceed although the queue is not empty (case 1 of the \<open>switch\<close>).
\<close>

theorem ShouldThreadWait_nonempty_queue_counterexample:
  "ShouldThreadWait 1 READ
     \<lparr>threadQueue = [(0, READ, 1)], readersNumber = 0, isWriterHolding = False,
      mayWriterThreadId = None\<rparr> =
   Inr (False, \<lparr>threadQueue = [(0, READ, 1)], readersNumber = 0, isWriterHolding = False,
                mayWriterThreadId = None\<rparr>) \<and>
   CanAcquireLock READ
     \<lparr>threadQueue = [(0, READ, 1)], readersNumber = 0, isWriterHolding = False,
      mayWriterThreadId = None\<rparr> \<and>
   threadQueue
     \<lparr>threadQueue = [(0, READ, 1)], readersNumber = 0, isWriterHolding = False,
      mayWriterThreadId = None\<rparr> \<noteq> []"
  by (simp add: ShouldThreadWait_def CanReaderAcquireLock_def)

text \<open>
  Claim C3, amended: an acquire request proceeds without queueing if and only if the lock
  state permits its mode and either the queue is empty, or the request is a READ and the
  queue holds exactly one entry, a READ entry; the lock is unchanged then. A READ request
  that must wait while the queue is non-empty and its back entry is a READ entry
  increments that entry's counter and creates no new entry. Every other request that must
  wait pushes a new entry with count 1 to the back of the queue.
\<close>

theorem ShouldThreadWait_cases:
  "(CanAcquireLock operation l \<and>
      (threadQueue l = [] \<or>
       (operation = READ \<and> length (threadQueue l) = 1 \<and> fst (snd (hd (threadQueue l))) = READ))
      \<longrightarrow> ShouldThreadWait c operation l = Inr (False, l))
   \<and> (\<not> (CanAcquireLock operation l \<and>
           (threadQueue l = [] \<or>
            (operation = READ \<and> length (threadQueue l) = 1 \<and>
             fst (snd (hd (threadQueue l))) = READ)))
       \<and> operation = READ \<and> threadQueue l \<noteq> [] \<and> fst (snd (last (threadQueue l))) = READ
       \<and> 0 < snd (snd (last (threadQueue l)))
      \<longrightarrow> ShouldThreadWait c operation l =
            Inr (True, l\<lparr>threadQueue := butlast (threadQueue l) @
                   [(fst (last (threadQueue l)), READ, snd (snd (last (threadQueue l))) + 1)]\<rparr>))
   \<and> (\<not> (CanAcquireLock operation l \<and>
           (threadQueue l = [] \<or>
            (operation = READ \<and> length (threadQueue l) = 1 \<and>
             fst (snd (hd (threadQueue l))) = READ)))
       \<and> \<not> (operation = READ \<and> threadQueue l \<noteq> [] \<and> fst (snd (last (threadQueue l))) = READ)
      \<longrightarrow> ShouldThreadWait c operation l =
            Inr (True, l\<lparr>threadQueue := threadQueue l @ [(c, operation, 1)]\<rparr>))"
  by (cases "threadQueue l"; cases operation)
     (auto simp: ShouldThreadWait_def InsertConditionTuple_def Let_def)

theorem ShouldThreadWait_cases_witness:
  "ShouldThreadWait 5 READ
     \<lparr>threadQueue = [(0, READ, 2)], readersNumber = 1, isWriterHolding = False,
      mayWriterThreadId = None\<rparr>
   = Inr (False, \<lparr>threadQueue = [(0, READ, 2)], readersNumber = 1, isWriterHolding = False,
                  mayWriterThreadId = None\<rparr>)
   \<and> ShouldThreadWait 5 READ
     \<lparr>threadQueue = [(0, WRITE, 1), (1, READ, 2)], readersNumber = 1, isWriterHolding = False,
      mayWriterThreadId = None\<rparr>
   = Inr (True, \<lparr>threadQueue = [(0, WRITE, 1), (1, READ, 3)], readersNumber = 1,
                 isWriterHolding = False, mayWriterThreadId = None\<rparr>)
   \<and> ShouldThreadWait 5 MAY_WRITE
     \<lparr>threadQueue = [(0, READ, 2)], readersNumber = 1, isWriterHolding = False,
      mayWriterThreadId = None\<rparr>
   = Inr (True, \<lparr>threadQueue = [(0, READ, 2), (5, MAY_WRITE, 1)], readersNumber = 1,
                 isWriterHolding = False, mayWriterThreadId = None\<rparr>)"
  using
    ShouldThreadWait_cases [of READ "\<lparr>threadQueue = [(0, READ, 2)], readersNumber = 1,
      isWriterHolding = False, mayWriterThreadId = None\<rparr>" 5]
    ShouldThreadWait_cases [of READ "\<lparr>threadQueue = [(0, WRITE, 1), (1, READ, 2)],
      readersNumber = 1, isWriterHolding = False, mayWriterThreadId = None\<rparr>" 5]
    ShouldThreadWait_cases [of MAY_WRITE "\<lparr>threadQueue = [(0, READ, 2)], readersNumber = 1,
      isWriterHolding = False, mayWriterThreadId = None\<rparr>" 5]
  by (simp add: CanReaderAcquireLock_def CanMayWriterAcquireLock_def)

text \<open>
  Claim C7: in every lock state reached by calls of the lock's methods in which no
  \<open>assert\<close> fails (the asserts are the stated preconditions of the methods), a writer
  holding the lock and a registered may-writer exclude each other, and while a writer
  holds the lock \<open>readersNumber\<close> is 0.
\<close>

theorem writer_excludes_others:
  assumes "run es initial = Some s"
  shows "\<not> (isWriterHolding (lockState s) \<and> mayWriterThreadId (lockState s) \<noteq> None) \<and>
         (isWriterHolding (lockState s) \<longrightarrow> readersNumber (lockState s) = 0)"
  using orderlyD(1) [OF run_orderly [OF orderly_initial assms]]
  by (simp add: exclusive_def)

theorem writer_excludes_others_witness:
  "\<exists>s. run [Call CallLockMayWrite 1, Call CallLockRead 2, Call CallLockWrite 3,
              Call CallUpgradeLock 1, Call CallReleaseSharedLock 2, WakeUp 1] initial = Some s \<and>
       isWriterHolding (lockState s) \<and> mayWriterThreadId (lockState s) = None \<and>
       readersNumber (lockState s) = 0"
proof -
  have "\<exists>s. run [Call CallLockMayWrite 1, Call CallLockRead 2, Call CallLockWrite 3,
              Call CallUpgradeLock 1, Call CallReleaseSharedLock 2, WakeUp 1] initial = Some s \<and>
       isWriterHolding (lockState s)"
    by (simp add: eval_defs)
  then obtain s where s: "run [Call CallLockMayWrite 1, Call CallLockRead 2, Call CallLockWrite 3,
              Call CallUpgradeLock 1, Call CallReleaseSharedLock 2, WakeUp 1] initial = Some s"
    and w: "isWriterHolding (lockState s)" by blast
  from writer_excludes_others [OF s] w s show ?thesis by auto
qed


text \<open>
  Claim C4: \<open>UpgradeLock\<close> called by the registered may-writer clears the may-writer
  identity in the same atomic segment in which it tries to acquire. If the caller is the
  only shared holder (\<open>readersNumber = 1\<close>) it holds the lock as writer when the segment
  ends and the queue is untouched. Otherwise a WRITE entry with a new condition variable
  is put in front of the queue and the caller sleeps. While it sleeps its entry stays at
  the front, every call that tries to acquire the lock ends asleep, every thread asleep in
  \<open>Wait\<close> that wakes goes back to sleep with the state unchanged, the release by the last
  reader notifies the caller's condition variable, and once \<open>readersNumber\<close> is 0 the
  caller's wake-up removes its entry and makes it the writer.
\<close>

theorem UpgradeLock_priority:
  assumes reach: "run es initial = Some s"
  shows "(asleep s t = None \<and> mayWriterThreadId (lockState s) = Some t \<and>
          readersNumber (lockState s) = 1 \<longrightarrow>
            (\<exists>s'. step (Call CallUpgradeLock t) s = Some s' \<and> asleep s' t = None \<and>
               lockState s' = (lockState s)\<lparr>readersNumber := 0, mayWriterThreadId := None,
                                             isWriterHolding := True\<rparr>))
       \<and> (asleep s t = None \<and> mayWriterThreadId (lockState s) = Some t \<and>
          1 < readersNumber (lockState s) \<longrightarrow>
            (\<exists>s'. step (Call CallUpgradeLock t) s = Some s' \<and>
               asleep s' t = Some (InUpgradeLock (nextCondition s)) \<and>
               lockState s' = (lockState s)\<lparr>readersNumber := readersNumber (lockState s) - 1,
                  mayWriterThreadId := None,
                  threadQueue := (nextCondition s, WRITE, 1) # threadQueue (lockState s)\<rparr>))
       \<and> (asleep s u = Some (InUpgradeLock c) \<longrightarrow>
            threadQueue (lockState s) \<noteq> [] \<and> fst (hd (threadQueue (lockState s))) = c \<and>
            fst (snd (hd (threadQueue (lockState s)))) = WRITE \<and>
            (\<forall>m t' s'. step (Call m t') s = Some s' \<and> m \<noteq> CallReleaseSharedLock \<longrightarrow>
                asleep s' t' \<noteq> None \<and> asleep s' u = Some (InUpgradeLock c) \<and>
                \<not> isWriterHolding (lockState s') \<and> mayWriterThreadId (lockState s') = None) \<and>
            (\<forall>t' operation cp. asleep s t' = Some (InWait operation cp) \<longrightarrow>
                step (WakeUp t') s = Some s) \<and>
            (readersNumber (lockState s) \<noteq> 0 \<longrightarrow> step (WakeUp u) s = Some s) \<and>
            (readersNumber (lockState s) = 1 \<longrightarrow>
                (\<forall>t'. ReleaseSharedLock t' (lockState s) =
                   Inr (Returned (Some c) ((lockState s)\<lparr>readersNumber := 0\<rparr>)))) \<and>
            (readersNumber (lockState s) = 0 \<longrightarrow>
                (\<exists>s'. step (WakeUp u) s = Some s' \<and> asleep s' u = None \<and>
                   lockState s' = (lockState s)\<lparr>threadQueue := tl (threadQueue (lockState s)),
                                                 isWriterHolding := True\<rparr>)))"
proof -
  note inv = run_orderly [OF orderly_initial reach]
  note I = orderlyD [OF inv]
  have fast: "\<exists>s'. step (Call CallUpgradeLock t) s = Some s' \<and> asleep s' t = None \<and>
               lockState s' = (lockState s)\<lparr>readersNumber := 0, mayWriterThreadId := None,
                                             isWriterHolding := True\<rparr>"
    if "asleep s t = None" "mayWriterThreadId (lockState s) = Some t" "readersNumber (lockState s) = 1"
    using that I(1)
    by (simp add: exclusive_def settle_def lockMethod_def UpgradeLock_def CanWriterAcquireLock_def
          CanMayWriterAcquireLock_def CanReaderAcquireLock_def afterWait_def LockWrite_acquire_def)
  have slow: "\<exists>s'. step (Call CallUpgradeLock t) s = Some s' \<and>
               asleep s' t = Some (InUpgradeLock (nextCondition s)) \<and>
               lockState s' = (lockState s)\<lparr>readersNumber := readersNumber (lockState s) - 1,
                  mayWriterThreadId := None,
                  threadQueue := (nextCondition s, WRITE, 1) # threadQueue (lockState s)\<rparr>"
    if "asleep s t = None" "mayWriterThreadId (lockState s) = Some t" "1 < readersNumber (lockState s)"
  proof -
    from that(3) have "0 < readersNumber (lockState s)" "readersNumber (lockState s) - 1 \<noteq> 0"
      by (auto simp: word_less_nat_alt unat_eq_zero [symmetric] unat_sub word_le_nat_alt
            simp del: unat_eq_zero)
    with that show ?thesis
      by (simp add: settle_def lockMethod_def UpgradeLock_def CanWriterAcquireLock_def
          sleepingIn_def InsertConditionTuple_def)
  qed
  have vip: "threadQueue (lockState s) \<noteq> [] \<and> fst (hd (threadQueue (lockState s))) = c \<and>
            fst (snd (hd (threadQueue (lockState s)))) = WRITE \<and>
            (\<forall>m t' s'. step (Call m t') s = Some s' \<and> m \<noteq> CallReleaseSharedLock \<longrightarrow>
                asleep s' t' \<noteq> None \<and> asleep s' u = Some (InUpgradeLock c) \<and>
                \<not> isWriterHolding (lockState s') \<and> mayWriterThreadId (lockState s') = None) \<and>
            (\<forall>t' operation cp. asleep s t' = Some (InWait operation cp) \<longrightarrow>
                step (WakeUp t') s = Some s) \<and>
            (readersNumber (lockState s) \<noteq> 0 \<longrightarrow> step (WakeUp u) s = Some s) \<and>
            (readersNumber (lockState s) = 1 \<longrightarrow>
                (\<forall>t'. ReleaseSharedLock t' (lockState s) =
                   Inr (Returned (Some c) ((lockState s)\<lparr>readersNumber := 0\<rparr>)))) \<and>
            (readersNumber (lockState s) = 0 \<longrightarrow>
                (\<exists>s'. step (WakeUp u) s = Some s' \<and> asleep s' u = None \<and>
                   lockState s' = (lockState s)\<lparr>threadQueue := tl (threadQueue (lockState s)),
                                                 isWriterHolding := True\<rparr>))"
    if u: "asleep s u = Some (InUpgradeLock c)"
  proof -
    note U = I(5) [OF u]
    from U obtain k rest where q: "threadQueue (lockState s) = (c, WRITE, k) # rest"
      by (cases "threadQueue (lockState s)") auto
    have calls: "asleep s' t' \<noteq> None \<and> asleep s' u = Some (InUpgradeLock c) \<and>
                \<not> isWriterHolding (lockState s') \<and> mayWriterThreadId (lockState s') = None"
      if st: "step (Call m t') s = Some s'" and m: "m \<noteq> CallReleaseSharedLock" for m t' s'
    proof -
      from step_Call [OF st] obtain r where t': "asleep s t' = None"
        and r: "lockMethod m t' (nextCondition s) (lockState s) = Inr r"
        and s': "case r of
            Returned n l' \<Rightarrow> lockState s' = l' \<and> asleep s' = (asleep s)(t' := None)
          | Waiting cp l' \<Rightarrow> lockState s' = l' \<and> asleep s' = (asleep s)(t' := Some (sleepingIn m cp))"
        by blast
      from t' u have ne: "u \<noteq> t'" by auto
      consider "acquiring m" | "m = CallUpgradeLock" | "m = CallReleaseExclusiveLock"
        using m by (cases m) (auto simp: acquiring_def)
      then show ?thesis
      proof cases
        case 1
        show ?thesis
        proof (cases r)
          case (Returned n l')
          from acquire_Returned [OF 1 r [unfolded Returned]] U show ?thesis by simp
        next
          case (Waiting cp l')
          from acquire_Waiting [OF 1 r [unfolded Waiting]] U s' Waiting ne u show ?thesis by simp
        qed
      next
        case 2
        with upgrade_outcome [of t' "nextCondition s" "lockState s" r] r U show ?thesis by simp
      next
        case 3
        with release_outcome [OF r] U show ?thesis by auto
      qed
    qed
    have sleepers: "step (WakeUp t') s = Some s"
      if w: "asleep s t' = Some (InWait operation cp)" for t' operation cp
    proof -
      from U w have "cp \<noteq> c" by blast
      then have "wakeMethod (InWait operation cp) t' (lockState s) = Inr (Waiting cp (lockState s))"
        using q
        by (cases operation)
           (simp_all add: wakeMethod_def LockRead_wake_def LockMayWrite_wake_def LockWrite_wake_def
              Wait_wake_def afterWait_def)
      with w show ?thesis by (simp add: settle_def fun_upd_idem)
    qed
    have wait: "step (WakeUp u) s = Some s" if "readersNumber (lockState s) \<noteq> 0"
      using that u
      by (simp add: settle_def wakeMethod_def UpgradeLock_wake_def CanWriterAcquireLock_def
            fun_upd_idem)
    have notify: "ReleaseSharedLock t' (lockState s) =
                   Inr (Returned (Some c) ((lockState s)\<lparr>readersNumber := 0\<rparr>))"
      if "readersNumber (lockState s) = 1" for t'
      using that U q
      by (simp add: ReleaseSharedLock_def TryNotifyingNext_def CanWriterAcquireLock_def
            CanMayWriterAcquireLock_def CanReaderAcquireLock_def)
    have admit: "\<exists>s'. step (WakeUp u) s = Some s' \<and> asleep s' u = None \<and>
                   lockState s' = (lockState s)\<lparr>threadQueue := tl (threadQueue (lockState s)),
                                                 isWriterHolding := True\<rparr>"
      if "readersNumber (lockState s) = 0"
      using that u U q
      by (simp add: settle_def wakeMethod_def UpgradeLock_wake_def CanWriterAcquireLock_def
            CanMayWriterAcquireLock_def CanReaderAcquireLock_def afterWait_def LockWrite_acquire_def)
    from U calls sleepers wait notify admit show ?thesis by blast
  qed
  from fast slow vip show ?thesis by blast
qed

theorem UpgradeLock_priority_witness:
  "(\<exists>s s'. run [Call CallLockMayWrite 1] initial = Some s \<and>
       step (Call CallUpgradeLock 1) s = Some s' \<and> asleep s' 1 = None \<and>
       isWriterHolding (lockState s') \<and> threadQueue (lockState s') = threadQueue (lockState s))
   \<and> (\<exists>s s'. run [Call CallLockMayWrite 1, Call CallLockRead 2, Call CallLockWrite 3] initial = Some s \<and>
       step (Call CallUpgradeLock 1) s = Some s' \<and> asleep s' 1 = Some (InUpgradeLock 3) \<and>
       threadQueue (lockState s') = (3, WRITE, 1) # threadQueue (lockState s))
   \<and> (\<exists>s. run [Call CallLockMayWrite 1, Call CallLockRead 2, Call CallLockWrite 3,
               Call CallUpgradeLock 1] initial = Some s \<and>
       asleep s 1 = Some (InUpgradeLock 3) \<and> asleep s 3 = Some (InWait WRITE 2) \<and>
       fst (hd (threadQueue (lockState s))) = 3 \<and>
       step (WakeUp 3) s = Some s \<and> step (WakeUp 1) s = Some s \<and>
       ReleaseSharedLock 2 (lockState s) = Inr (Returned (Some 3) ((lockState s)\<lparr>readersNumber := 0\<rparr>)))
   \<and> (\<exists>s s'. run [Call CallLockMayWrite 1, Call CallLockRead 2, Call CallLockWrite 3,
               Call CallUpgradeLock 1, Call CallReleaseSharedLock 2] initial = Some s \<and>
       asleep s 1 = Some (InUpgradeLock 3) \<and>
       step (WakeUp 1) s = Some s' \<and> asleep s' 1 = None \<and> isWriterHolding (lockState s'))"
proof (intro conjI)
  have "\<exists>s. run [Call CallLockMayWrite 1] initial = Some s \<and> asleep s 1 = None \<and>
      mayWriterThreadId (lockState s) = Some 1 \<and> readersNumber (lockState s) = 1"
    by (simp add: eval_defs)
  then obtain s where s: "run [Call CallLockMayWrite 1] initial = Some s" "asleep s 1 = None"
      "mayWriterThreadId (lockState s) = Some 1" "readersNumber (lockState s) = 1"
    by blast
  from UpgradeLock_priority [OF s(1), of 1, THEN conjunct1] s(2-4)
  obtain s' where "step (Call CallUpgradeLock 1) s = Some s'" "asleep s' 1 = None"
    "lockState s' = (lockState s)\<lparr>readersNumber := 0, mayWriterThreadId := None,
                                  isWriterHolding := True\<rparr>"
    by blast
  with s(1) show "\<exists>s s'. run [Call CallLockMayWrite 1] initial = Some s \<and>
       step (Call CallUpgradeLock 1) s = Some s' \<and> asleep s' 1 = None \<and>
       isWriterHolding (lockState s') \<and> threadQueue (lockState s') = threadQueue (lockState s)"
    by (intro exI [of _ s] exI [of _ s']) simp
next
  have "\<exists>s. run [Call CallLockMayWrite 1, Call CallLockRead 2, Call CallLockWrite 3] initial = Some s \<and>
      asleep s 1 = None \<and> mayWriterThreadId (lockState s) = Some 1 \<and>
      readersNumber (lockState s) = 2 \<and> nextCondition s = 3"
    by (simp add: eval_defs)
  then obtain s where s:
      "run [Call CallLockMayWrite 1, Call CallLockRead 2, Call CallLockWrite 3] initial = Some s"
      "asleep s 1 = None" "mayWriterThreadId (lockState s) = Some 1"
      "readersNumber (lockState s) = 2" "nextCondition s = 3"
    by blast
  from s(4) have "1 < readersNumber (lockState s)" by simp
  with UpgradeLock_priority [OF s(1), of 1, THEN conjunct2, THEN conjunct1] s(2,3)
  obtain s' where "step (Call CallUpgradeLock 1) s = Some s'"
    "asleep s' 1 = Some (InUpgradeLock (nextCondition s))"
    "lockState s' = (lockState s)\<lparr>readersNumber := readersNumber (lockState s) - 1,
                  mayWriterThreadId := None,
                  threadQueue := (nextCondition s, WRITE, 1) # threadQueue (lockState s)\<rparr>"
    by blast
  with s(1,5) show "\<exists>s s'. run [Call CallLockMayWrite 1, Call CallLockRead 2, Call CallLockWrite 3] initial = Some s \<and>
       step (Call CallUpgradeLock 1) s = Some s' \<and> asleep s' 1 = Some (InUpgradeLock 3) \<and>
       threadQueue (lockState s') = (3, WRITE, 1) # threadQueue (lockState s)"
    by (intro exI [of _ s] exI [of _ s']) simp
next
  have "\<exists>s. run [Call CallLockMayWrite 1, Call CallLockRead 2, Call CallLockWrite 3,
               Call CallUpgradeLock 1] initial = Some s \<and>
      asleep s 1 = Some (InUpgradeLock 3) \<and> asleep s 3 = Some (InWait WRITE 2) \<and>
      readersNumber (lockState s) = 1"
    by (simp add: eval_defs)
  then obtain s where s:
      "run [Call CallLockMayWrite 1, Call CallLockRead 2, Call CallLockWrite 3,
            Call CallUpgradeLock 1] initial = Some s"
      "asleep s 1 = Some (InUpgradeLock 3)" "asleep s 3 = Some (InWait WRITE 2)"
      "readersNumber (lockState s) = 1"
    by blast
  note T = UpgradeLock_priority [OF s(1), of _ 1 3, THEN conjunct2, THEN conjunct2, rule_format, OF s(2)]
  from s(4) have ne: "readersNumber (lockState s) \<noteq> 0" by simp
  have "fst (hd (threadQueue (lockState s))) = 3" using T by blast
  moreover have "step (WakeUp 3) s = Some s" using T s(3) by blast
  moreover have "step (WakeUp 1) s = Some s" using T ne by blast
  moreover have "ReleaseSharedLock 2 (lockState s) =
      Inr (Returned (Some 3) ((lockState s)\<lparr>readersNumber := 0\<rparr>))" using T s(4) by blast
  ultimately show "\<exists>s. run [Call CallLockMayWrite 1, Call CallLockRead 2, Call CallLockWrite 3,
               Call CallUpgradeLock 1] initial = Some s \<and>
       asleep s 1 = Some (InUpgradeLock 3) \<and> asleep s 3 = Some (InWait WRITE 2) \<and>
       fst (hd (threadQueue (lockState s))) = 3 \<and>
       step (WakeUp 3) s = Some s \<and> step (WakeUp 1) s = Some s \<and>
       ReleaseSharedLock 2 (lockState s) = Inr (Returned (Some 3) ((lockState s)\<lparr>readersNumber := 0\<rparr>))"
    using s by (intro exI [of _ s]) simp
next
  have "\<exists>s. run [Call CallLockMayWrite 1, Call CallLockRead 2, Call CallLockWrite 3,
               Call CallUpgradeLock 1, Call CallReleaseSharedLock 2] initial = Some s \<and>
      asleep s 1 = Some (InUpgradeLock 3) \<and> readersNumber (lockState s) = 0"
    by (simp add: eval_defs)
  then obtain s where s:
      "run [Call CallLockMayWrite 1, Call CallLockRead 2, Call CallLockWrite 3,
            Call CallUpgradeLock 1, Call CallReleaseSharedLock 2] initial = Some s"
      "asleep s 1 = Some (InUpgradeLock 3)" "readersNumber (lockState s) = 0"
    by blast
  note T = UpgradeLock_priority [OF s(1), of _ 1 3, THEN conjunct2, THEN conjunct2, rule_format, OF s(2)]
  from T s(3) obtain s' where "step (WakeUp 1) s = Some s'" "asleep s' 1 = None"
    "lockState s' = (lockState s)\<lparr>threadQueue := tl (threadQueue (lockState s)),
                                  isWriterHolding := True\<rparr>"
    by blast
  with s show "\<exists>s s'. run [Call CallLockMayWrite 1, Call CallLockRead 2, Call CallLockWrite 3,
               Call CallUpgradeLock 1, Call CallReleaseSharedLock 2] initial = Some s \<and>
       asleep s 1 = Some (InUpgradeLock 3) \<and>
       step (WakeUp 1) s = Some s' \<and> asleep s' 1 = None \<and> isWriterHolding (lockState s')"
    by (intro exI [of _ s] exI [of _ s']) simp
qed

section \<open>The list: claims\<close>

text \<open>
  Claim C1: on a freshly constructed list, one thread calling in sequence:
  \<open>InsertHead(5, 'a')\<close> returns true; \<open>Search(5)\<close> returns true and writes \<open>'a'\<close> through the
  data pointer; \<open>Search(6)\<close> returns false (and leaves the pointed-to value as it was);
  \<open>Delete(5)\<close> returns true; a second \<open>Delete(5)\<close> returns false. Every call returns: no
  assert fails, no lock call would wait, no loop runs forever.
\<close>

theorem sequential_scenario:
  "\<exists>s1 s2 s3 s4 s5.
     InsertHead self 5 CHR ''a'' ConcurrentDoublyLinkedList = Some (Inr (True, s1)) \<and>
     Search self 5 (Some d) s1 = Some (Inr (True, Some CHR ''a'', s2)) \<and>
     Search self 6 (Some d) s2 = Some (Inr (False, Some d, s3)) \<and>
     Delete self 5 s3 = Some (Inr (True, s4)) \<and>
     Delete self 5 s4 = Some (Inr (False, s5))"
  by (simp add: list_eval eval_defs FindKey_while.simps)

text \<open>
  Claim C2: every finite sequence of calls of \<open>InsertHead\<close>, \<open>InsertTail\<close>, \<open>Delete\<close> and
  \<open>Search\<close>, made by one thread on a freshly constructed list, runs to the end (each call
  returns), and in the state it leaves: the chain of \<open>nextPtr\<close> from \<open>head\<close> ends in \<open>tail\<close>;
  for all nodes \<open>a\<close>, \<open>b\<close> of the chain, \<open>a.nextPtr = b\<close> if and only if \<open>b.prevPtr = a\<close>; the
  keys of the nodes of the chain other than \<open>head\<close> and \<open>tail\<close> are strictly increasing; and
  every node of the chain has \<open>isNodeActive\<close> true.
\<close>

theorem list_invariants:
  "\<exists>s. performAll self cs ConcurrentDoublyLinkedList = Some (Inr s) \<and>
       last (nextChain (nodes s)) = tail \<and>
       (\<forall>a \<in> set (nextChain (nodes s)). \<forall>b \<in> set (nextChain (nodes s)).
          nextPtr (nodes s ! a) = Some b \<longleftrightarrow> prevPtr (nodes s ! b) = Some a) \<and>
       sorted_wrt (<) (map (\<lambda>a. key (nodes s ! a)) (butlast (tl (nextChain (nodes s))))) \<and>
       (\<forall>a \<in> set (nextChain (nodes s)). isNodeActive (nodes s ! a))"
proof -
  from performAll_sortedList [OF sortedList_initial, of self cs] obtain s xs where
    run: "performAll self cs ConcurrentDoublyLinkedList = Some (Inr s)"
    and wf: "sortedList (nodes s) xs" by blast
  note ch = nextChain_sortedList [OF wf]
  note R = sortedList_range [OF wf]
  have d: "distinct (head # xs @ [tail])" using R by auto
  have inv: "nextPtr (nodes s ! a) = Some b \<longleftrightarrow> prevPtr (nodes s ! b) = Some a"
    if "a \<in> set (head # xs @ [tail])" "b \<in> set (head # xs @ [tail])" for a b
    using wf d that by (intro follows_inverse [of _ "head # xs @ [tail]"]) (simp_all add: sortedList_def)
  from wf have "sorted_wrt (<) (map (\<lambda>a. key (nodes s ! a)) xs)"
    and "\<forall>a \<in> set (head # xs @ [tail]). isNodeActive (nodes s ! a)"
    by (simp_all add: sortedList_def)
  with run inv show ?thesis
    by (intro exI [of _ s]) (simp add: ch butlast_append)
qed

text \<open>
  The statement of C2 at a sequence of five calls, which leaves the keys 1 and 2 in the
  list, in the nodes allocated second and third.
\<close>

theorem list_invariants_witness:
  "\<exists>s. performAll 1 [CallInsertHead 3 CHR ''c'', CallInsertTail 1 CHR ''a'',
                       CallInsertHead 2 CHR ''b'', CallDelete 3, CallSearch 2 (Some CHR ''x'')]
          ConcurrentDoublyLinkedList = Some (Inr s) \<and>
       nextChain (nodes s) = [0, 3, 4, 1] \<and>
       map (\<lambda>a. key (nodes s ! a)) [3, 4] = [1, 2] \<and>
       (\<forall>a \<in> set (nextChain (nodes s)). \<forall>b \<in> set (nextChain (nodes s)).
          nextPtr (nodes s ! a) = Some b \<longleftrightarrow> prevPtr (nodes s ! b) = Some a) \<and>
       (\<forall>a \<in> set (nextChain (nodes s)). isNodeActive (nodes s ! a))"
proof -
  from list_invariants [of 1 "[CallInsertHead 3 CHR ''c'', CallInsertTail 1 CHR ''a'',
                       CallInsertHead 2 CHR ''b'', CallDelete 3, CallSearch 2 (Some CHR ''x'')]"]
  obtain s where s: "performAll 1 [CallInsertHead 3 CHR ''c'', CallInsertTail 1 CHR ''a'',
                       CallInsertHead 2 CHR ''b'', CallDelete 3, CallSearch 2 (Some CHR ''x'')]
          ConcurrentDoublyLinkedList = Some (Inr s)"
    and inv: "\<forall>a \<in> set (nextChain (nodes s)). \<forall>b \<in> set (nextChain (nodes s)).
          nextPtr (nodes s ! a) = Some b \<longleftrightarrow> prevPtr (nodes s ! b) = Some a"
    and act: "\<forall>a \<in> set (nextChain (nodes s)). isNodeActive (nodes s ! a)"
    by blast
  have "\<exists>s'. performAll 1 [CallInsertHead 3 CHR ''c'', CallInsertTail 1 CHR ''a'',
                       CallInsertHead 2 CHR ''b'', CallDelete 3, CallSearch 2 (Some CHR ''x'')]
          ConcurrentDoublyLinkedList = Some (Inr s') \<and>
       nextChain (nodes s') = [0, 3, 4, 1] \<and>
       map (\<lambda>a. key (nodes s' ! a)) [3, 4] = [1, 2]"
    by (simp add: list_eval eval_defs FindKey_while.simps InsertTail_while.simps nextChain_def)
  with s have "nextChain (nodes s) = [0, 3, 4, 1]" "map (\<lambda>a. key (nodes s ! a)) [3, 4] = [1, 2]"
    by auto
  with s inv act show ?thesis by (intro exI [of _ s] conjI)
qed

text \<open>
  Claim C9: in a list at rest that holds the key \<open>k\<close>, \<open>InsertHead(k, v)\<close> and
  \<open>InsertTail(k, v)\<close> both return false and leave every node as it was: no node is
  allocated and no field of a node is changed, the locks included, which are all free
  before and after the call, so every lock the call acquired has been released.
\<close>

theorem duplicate_insert_rejected:
  fixes k :: int
  assumes wf: "sortedList (nodes s) xs" and present: "k \<in> (\<lambda>a. key (nodes s ! a)) ` set xs"
  shows "(\<exists>s'. InsertHead self k v s = Some (Inr (False, s')) \<and> nodes s' = nodes s) \<and>
         (\<exists>s'. InsertTail self k v s = Some (Inr (False, s')) \<and> nodes s' = nodes s) \<and>
         (\<forall>a < length (nodes s). lock (nodes s ! a) = newLock)"
proof (intro conjI)
  from wf have so: "sorted_wrt (<) (map (\<lambda>a. key (nodes s ! a)) xs)"
    by (simp add: sortedList_def)
  from present have "dropWhile (\<lambda>a. key (nodes s ! a) < k) xs \<noteq> [] \<and>
      key (nodes s ! hd (dropWhile (\<lambda>a. key (nodes s ! a) < k) xs)) = k"
    by (simp only: present_iff [OF so])
  then show "\<exists>s'. InsertHead self k v s = Some (Inr (False, s')) \<and> nodes s' = nodes s"
    by (rule InsertHead_sortedList(1) [OF wf refl])
  from present show "\<exists>s'. InsertTail self k v s = Some (Inr (False, s')) \<and> nodes s' = nodes s"
    by (rule InsertTail_sortedList(1) [OF wf refl])
  from wf show "\<forall>a < length (nodes s). lock (nodes s ! a) = newLock"
    by (simp add: sortedList_quiet)
qed

text \<open>
  The statement of C9 in the list that \<open>InsertHead(7, 'x')\<close> makes of the empty list;
  \<open>Search(7)\<close> still finds \<open>'x'\<close> afterwards.
\<close>

theorem duplicate_insert_rejected_witness:
  "\<exists>s s1 s2 s3.
     InsertHead 1 7 CHR ''x'' ConcurrentDoublyLinkedList = Some (Inr (True, s)) \<and>
     InsertTail 1 7 CHR ''y'' s = Some (Inr (False, s1)) \<and> nodes s1 = nodes s \<and>
     InsertHead 1 7 CHR ''z'' s = Some (Inr (False, s2)) \<and> nodes s2 = nodes s \<and>
     Search 1 7 (Some CHR ''0'') s1 = Some (Inr (True, Some CHR ''x'', s3))"
proof -
  have "\<exists>s. perform 1 (CallInsertHead 7 CHR ''x'') ConcurrentDoublyLinkedList = Some (Inr s) \<and>
          InsertHead 1 7 CHR ''x'' ConcurrentDoublyLinkedList = Some (Inr (True, s)) \<and>
          key (nodes s ! 2) = 7 \<and> nextChain (nodes s) = [0, 2, 1] \<and>
          data (nodes s ! 2) = CHR ''x''"
    by (simp add: list_eval eval_defs FindKey_while.simps nextChain_def)
  then obtain s where s: "perform 1 (CallInsertHead 7 CHR ''x'') ConcurrentDoublyLinkedList = Some (Inr s)"
    "InsertHead 1 7 CHR ''x'' ConcurrentDoublyLinkedList = Some (Inr (True, s))"
    "key (nodes s ! 2) = 7" "nextChain (nodes s) = [0, 2, 1]" "data (nodes s ! 2) = CHR ''x''"
    by blast
  from perform_sortedList [OF sortedList_initial, of 1 "CallInsertHead 7 CHR ''x''"] s(1)
  obtain xs where wf: "sortedList (nodes s) xs" by auto
  from nextChain_sortedList [OF wf] s(4) have xs: "xs = [2]" by (simp add: head_def tail_def)
  have pr: "7 \<in> (\<lambda>a. key (nodes s ! a)) ` set xs" by (simp add: xs s(3))
  from duplicate_insert_rejected [OF wf pr, of 1 "CHR ''y''"]
  obtain s1 where s1: "InsertTail 1 7 CHR ''y'' s = Some (Inr (False, s1))" "nodes s1 = nodes s"
    by blast
  from duplicate_insert_rejected [OF wf pr, of 1 "CHR ''z''"]
  obtain s2 where s2: "InsertHead 1 7 CHR ''z'' s = Some (Inr (False, s2))" "nodes s2 = nodes s"
    by blast
  have "\<exists>s3. Search 1 7 (Some CHR ''0'') s1 = Some (Inr (True, Some CHR ''x'', s3))"
    using Search_sortedList [OF wf s1(2), of 1 7 "CHR ''0''"] by (auto simp: xs s(3,5))
  with s(2) s1 s2 show ?thesis by blast
qed

text \<open>
  Claim C10: a \<open>Delete(k)\<close> that finds the key returns true and changes three fields only:
  \<open>nextPtr\<close> of the predecessor, \<open>prevPtr\<close> of the successor and \<open>isNodeActive\<close> of the
  victim. The victim keeps its key, its data and its own \<open>prevPtr\<close> and \<open>nextPtr\<close>, which
  still point to the neighbours it had when it was unlinked; every other node is unchanged.
  The victim is no longer on the chain, and its \<open>prevPtr\<close> leads to a node that is: this is
  the step the backward walk of \<open>InsertTail\<close> takes from an inactive node.
\<close>

theorem Delete_frame:
  fixes k :: int
  assumes wf: "sortedList (nodes s) xs"
    and victim: "victim \<in> set xs" and k: "key (nodes s ! victim) = k"
  shows "\<exists>s' pred succ.
     Delete self k s = Some (Inr (True, s')) \<and>
     prevPtr (nodes s ! victim) = Some pred \<and> nextPtr (nodes s ! victim) = Some succ \<and>
     pred \<noteq> victim \<and> succ \<noteq> victim \<and> pred \<noteq> succ \<and>
     length (nodes s') = length (nodes s) \<and>
     nodes s' ! pred = (nodes s ! pred)\<lparr>nextPtr := Some succ\<rparr> \<and>
     nodes s' ! succ = (nodes s ! succ)\<lparr>prevPtr := Some pred\<rparr> \<and>
     nodes s' ! victim = (nodes s ! victim)\<lparr>isNodeActive := False\<rparr> \<and>
     (\<forall>a < length (nodes s). a \<noteq> pred \<and> a \<noteq> succ \<and> a \<noteq> victim \<longrightarrow>
        nodes s' ! a = nodes s ! a) \<and>
     pred \<in> set (nextChain (nodes s')) \<and> victim \<notin> set (nextChain (nodes s'))"
proof -
  define h where "h = nodes s"
  have wfh: "sortedList h xs" and kh: "key (h ! victim) = k" using wf k by (simp_all add: h_def)
  from wfh have so: "sorted_wrt (<) (map (\<lambda>a. key (h ! a)) xs)"
    by (simp add: sortedList_def)
  from present_split [OF so victim] obtain us ws where xs: "xs = us @ victim # ws"
    and tw: "takeWhile (\<lambda>a. key (h ! a) < k) xs = us"
    and dw: "dropWhile (\<lambda>a. key (h ! a) < k) xs = victim # ws"
    unfolding kh by blast
  define pred where "pred = last (head # us)"
  define succ where "succ = hd (ws @ [tail])"
  note R = sortedList_range [OF wfh]
  from wfh have fo: "follows h (head # us @ [victim] @ (ws @ [tail]))"
    by (simp add: sortedList_def xs)
  have pp: "prevPtr (h ! victim) = Some pred"
    unfolding pred_def by (rule last_chain_prev [OF fo])
  from fo have "follows h ((head # us) @ victim # (ws @ [tail]))" by simp
  then have "follows h (victim # (ws @ [tail]))" by (rule follows_append_right)
  then have np: "nextPtr (h ! victim) = Some succ"
    unfolding succ_def by (rule follows_next) simp
  have d: "distinct (head # us @ victim # ws @ [tail])"
    using R(3,4,5) by (auto simp: xs)
  have pin: "pred \<in> set (head # us)" unfolding pred_def by (rule last_in_set) simp
  have sin: "succ \<in> set (ws @ [tail])" unfolding succ_def by (rule hd_in_set) simp
  from d pin sin have ne: "pred \<noteq> victim" "succ \<noteq> victim" "pred \<noteq> succ" by auto
  have bnd: "\<forall>a \<in> set (head # xs @ [tail]). a < length h" using R by auto
  with pin sin have lt: "pred < length h" "succ < length h" "victim < length h"
    by (auto simp: xs)
  from Delete_sortedList(1) [OF wfh h_def [symmetric], of k self] obtain s' where
    run: "Delete self k s = Some (Inr (True, s'))"
    and ns: "nodes s' = h[pred := (h ! pred)\<lparr>nextPtr := Some succ\<rparr>,
                          succ := (h ! succ)\<lparr>prevPtr := Some pred\<rparr>,
                          victim := (h ! victim)\<lparr>isNodeActive := False\<rparr>]"
    and wf': "sortedList (nodes s') (us @ ws)"
    by (auto simp: tw dw kh pred_def succ_def)
  have ch: "nextChain (nodes s') = head # (us @ ws) @ [tail]"
    by (rule nextChain_sortedList [OF wf'])
  have in_chain: "pred \<in> set (nextChain (nodes s'))" using pin by (auto simp: ch)
  have out_chain: "victim \<notin> set (nextChain (nodes s'))" using d by (auto simp: ch)
  have "length (nodes s') = length h" by (simp add: ns)
  moreover have "nodes s' ! pred = (h ! pred)\<lparr>nextPtr := Some succ\<rparr>"
    using ne lt by (simp add: ns)
  moreover have "nodes s' ! succ = (h ! succ)\<lparr>prevPtr := Some pred\<rparr>"
    using ne lt by (simp add: ns)
  moreover have "nodes s' ! victim = (h ! victim)\<lparr>isNodeActive := False\<rparr>"
    using ne lt by (simp add: ns)
  moreover have "\<forall>a < length h. a \<noteq> pred \<and> a \<noteq> succ \<and> a \<noteq> victim \<longrightarrow> nodes s' ! a = h ! a"
    by (simp add: ns)
  ultimately show ?thesis
    using run pp np ne in_chain out_chain unfolding h_def [symmetric] by blast
qed

text \<open>
  The statement of C10 in the list with keys 5 and 9, from which 5 is deleted. A thread
  that then locks the victim and runs the loop of \<open>InsertTail\<close> from it, for the key 7, leaves
  the loop at \<open>head\<close>, the victim's former predecessor.
\<close>

theorem Delete_frame_witness:
  "\<exists>s s' s1 s2.
     performAll 1 [CallInsertHead 5 CHR ''a'', CallInsertTail 9 CHR ''b'']
       ConcurrentDoublyLinkedList = Some (Inr s) \<and>
     Delete 1 5 s = Some (Inr (True, s')) \<and>
     nodes s' ! 2 = (nodes s ! 2)\<lparr>isNodeActive := False\<rparr> \<and>
     prevPtr (nodes s' ! 2) = Some 0 \<and> nextPtr (nodes s' ! 2) = Some 3 \<and>
     nodes s' ! 0 = (nodes s ! 0)\<lparr>nextPtr := Some 3\<rparr> \<and>
     nodes s' ! 3 = (nodes s ! 3)\<lparr>prevPtr := Some 0\<rparr> \<and>
     nodes s' ! 1 = nodes s ! 1 \<and>
     lockCall CallLockMayWrite 1 (Some 2) s' = Inr s1 \<and>
     InsertTail_while 1 7 (Some 2) s1 = Some (Inr (Some 0, s2))"
proof -
  have "\<exists>s s' s1 s2.
     performAll 1 [CallInsertHead 5 CHR ''a'', CallInsertTail 9 CHR ''b'']
       ConcurrentDoublyLinkedList = Some (Inr s) \<and>
     Delete 1 5 s = Some (Inr (True, s')) \<and>
     key (nodes s ! 2) = 5 \<and> nextChain (nodes s) = [0, 2, 3, 1] \<and>
     prevPtr (nodes s ! 2) = Some 0 \<and> nextPtr (nodes s ! 2) = Some 3 \<and>
     length (nodes s) = 4 \<and>
     lockCall CallLockMayWrite 1 (Some 2) s' = Inr s1 \<and>
     InsertTail_while 1 7 (Some 2) s1 = Some (Inr (Some 0, s2))"
    by (simp add: list_eval eval_defs FindKey_while.simps InsertTail_while.simps nextChain_def)
  then obtain s s' s1 s2 where
    s: "performAll 1 [CallInsertHead 5 CHR ''a'', CallInsertTail 9 CHR ''b'']
          ConcurrentDoublyLinkedList = Some (Inr s)"
    and del: "Delete 1 5 s = Some (Inr (True, s'))"
    and k: "key (nodes s ! 2) = 5" and ch: "nextChain (nodes s) = [0, 2, 3, 1]"
    and pn: "prevPtr (nodes s ! 2) = Some 0" "nextPtr (nodes s ! 2) = Some 3"
    and len: "length (nodes s) = 4"
    and walk: "lockCall CallLockMayWrite 1 (Some 2) s' = Inr s1"
      "InsertTail_while 1 7 (Some 2) s1 = Some (Inr (Some 0, s2))"
    by blast
  from performAll_sortedList [OF sortedList_initial, of 1
      "[CallInsertHead 5 CHR ''a'', CallInsertTail 9 CHR ''b'']"] s
  obtain xs where wf: "sortedList (nodes s) xs" by auto
  from nextChain_sortedList [OF wf] ch have xs: "xs = [2, 3]" by (simp add: head_def tail_def)
  have v: "2 \<in> set xs" by (simp add: xs)
  from Delete_frame [OF wf v k, of 1] del pn obtain
    "nodes s' ! 0 = (nodes s ! 0)\<lparr>nextPtr := Some 3\<rparr>"
    "nodes s' ! 3 = (nodes s ! 3)\<lparr>prevPtr := Some 0\<rparr>"
    "nodes s' ! 2 = (nodes s ! 2)\<lparr>isNodeActive := False\<rparr>"
    "\<forall>a < length (nodes s). a \<noteq> 0 \<and> a \<noteq> 3 \<and> a \<noteq> 2 \<longrightarrow> nodes s' ! a = nodes s ! a"
    by auto
  with s del pn walk len show ?thesis
    by (intro exI [of _ s] exI [of _ s'] exI [of _ s1] exI [of _ s2]) simp
qed

text \<open>
  Claim C6: a call of \<open>ReleaseSharedLock\<close> by the thread registered as the may-writer
  decrements \<open>readersNumber\<close> and resets \<open>mayWriterThreadId\<close>. Unless a writer holds the
  lock (which the invariant of C7 excludes), the lock then permits MAY_WRITE: with an empty
  queue a call of \<open>LockMayWrite\<close> by another thread returns at once with that thread
  registered; with a MAY_WRITE entry at the front of the queue the release notifies its
  condition variable, and the woken thread leaves \<open>Wait\<close> and is registered. In the loop of
  \<open>InsertTail\<close>, an iteration from a node whose lock the thread holds in MAY_WRITE mode
  calls \<open>ReleaseSharedLock\<close> on that node, which clears the may-writer of its lock, and
  goes on with the lock of the previous node.
\<close>

theorem ReleaseSharedLock_clears_mayWriter:
  "(mayWriterThreadId l = Some self \<and> readersNumber l \<noteq> 0 \<longrightarrow>
      (\<exists>l'.
         ReleaseSharedLock self l = Inr (Returned (TryNotifyingNext l') l') \<and>
         l' = l\<lparr>readersNumber := readersNumber l - 1, mayWriterThreadId := None\<rparr> \<and>
         (\<not> isWriterHolding l \<longrightarrow> CanAcquireLock MAY_WRITE l') \<and>
         (\<not> isWriterHolding l \<and> threadQueue l = [] \<longrightarrow>
            LockMayWrite other c l' =
              Inr (Returned None (l\<lparr>mayWriterThreadId := Some other\<rparr>))) \<and>
         (\<forall>cp n rest. \<not> isWriterHolding l \<and> threadQueue l = (cp, MAY_WRITE, n) # rest \<longrightarrow>
            TryNotifyingNext l' = Some cp \<and>
            LockMayWrite_wake other cp l' =
              Inr (Returned (TryNotifyingNext (l'\<lparr>threadQueue := rest\<rparr>))
                            (l\<lparr>threadQueue := rest, mayWriterThreadId := Some other\<rparr>)))))
   \<and> (a < length (nodes s) \<and> mayWriterThreadId (lock (nodes s ! a)) = Some self \<and>
        readersNumber (lock (nodes s ! a)) \<noteq> 0 \<and>
        ((k < key (nodes s ! a) \<and> a \<noteq> head) \<or> \<not> isNodeActive (nodes s ! a)) \<longrightarrow>
      (\<exists>s1. lockCall CallReleaseSharedLock self (Some a) s = Inr s1 \<and>
         lockCalls s1 = lockCalls s @ [(CallReleaseSharedLock, a)] \<and>
         nodes s1 = (nodes s)[a := (nodes s ! a)\<lparr>lock := (lock (nodes s ! a))
            \<lparr>readersNumber := readersNumber (lock (nodes s ! a)) - 1,
             mayWriterThreadId := None\<rparr>\<rparr>] \<and>
         InsertTail_while self k (Some a) s =
           (case lockCall CallLockMayWrite self (prevPtr (nodes s ! a)) s1 of
              Inl e \<Rightarrow> Some (Inl e)
            | Inr s2 \<Rightarrow> InsertTail_while self k (prevPtr (nodes s ! a)) s2)))"
proof (intro conjI impI)
  assume h: "mayWriterThreadId l = Some self \<and> readersNumber l \<noteq> 0"
  define l' where "l' = l\<lparr>readersNumber := readersNumber l - 1, mayWriterThreadId := None\<rparr>"
  have rel: "ReleaseSharedLock self l = Inr (Returned (TryNotifyingNext l') l')"
    using h by (simp add: ReleaseSharedLock_mayWriter l'_def)
  have can: "\<not> isWriterHolding l \<longrightarrow> CanAcquireLock MAY_WRITE l'"
    by (simp add: l'_def CanMayWriterAcquireLock_def CanReaderAcquireLock_def)
  have again: "\<not> isWriterHolding l \<and> threadQueue l = [] \<longrightarrow>
      LockMayWrite other c l' = Inr (Returned None (l\<lparr>mayWriterThreadId := Some other\<rparr>))"
    using h by (simp add: l'_def eval_defs)
  have wake: "\<forall>cp n rest. \<not> isWriterHolding l \<and> threadQueue l = (cp, MAY_WRITE, n) # rest \<longrightarrow>
      TryNotifyingNext l' = Some cp \<and>
      LockMayWrite_wake other cp l' =
        Inr (Returned (TryNotifyingNext (l'\<lparr>threadQueue := rest\<rparr>))
                      (l\<lparr>threadQueue := rest, mayWriterThreadId := Some other\<rparr>))"
    using h by (simp add: l'_def eval_defs)
  from rel can again wake show "\<exists>l'.
         ReleaseSharedLock self l = Inr (Returned (TryNotifyingNext l') l') \<and>
         l' = l\<lparr>readersNumber := readersNumber l - 1, mayWriterThreadId := None\<rparr> \<and>
         (\<not> isWriterHolding l \<longrightarrow> CanAcquireLock MAY_WRITE l') \<and>
         (\<not> isWriterHolding l \<and> threadQueue l = [] \<longrightarrow>
            LockMayWrite other c l' =
              Inr (Returned None (l\<lparr>mayWriterThreadId := Some other\<rparr>))) \<and>
         (\<forall>cp n rest. \<not> isWriterHolding l \<and> threadQueue l = (cp, MAY_WRITE, n) # rest \<longrightarrow>
            TryNotifyingNext l' = Some cp \<and>
            LockMayWrite_wake other cp l' =
              Inr (Returned (TryNotifyingNext (l'\<lparr>threadQueue := rest\<rparr>))
                            (l\<lparr>threadQueue := rest, mayWriterThreadId := Some other\<rparr>)))"
    unfolding l'_def [symmetric] by blast
next
  assume h: "a < length (nodes s) \<and> mayWriterThreadId (lock (nodes s ! a)) = Some self \<and>
        readersNumber (lock (nodes s ! a)) \<noteq> 0 \<and>
        ((k < key (nodes s ! a) \<and> a \<noteq> head) \<or> \<not> isNodeActive (nodes s ! a))"
  define s1 where "s1 = s\<lparr>nodes := (nodes s)[a := (nodes s ! a)\<lparr>lock := (lock (nodes s ! a))
            \<lparr>readersNumber := readersNumber (lock (nodes s ! a)) - 1,
             mayWriterThreadId := None\<rparr>\<rparr>],
         lockCalls := lockCalls s @ [(CallReleaseSharedLock, a)]\<rparr>"
  have rel: "lockCall CallReleaseSharedLock self (Some a) s = Inr s1"
    using h by (simp add: lockCall_def deref_def lockMethod_def ReleaseSharedLock_mayWriter s1_def)
  have loop: "InsertTail_while self k (Some a) s =
           (case lockCall CallLockMayWrite self (prevPtr (nodes s ! a)) s1 of
              Inl e \<Rightarrow> Some (Inl e)
            | Inr s2 \<Rightarrow> InsertTail_while self k (prevPtr (nodes s ! a)) s2)"
    using h by (subst InsertTail_while.simps) (auto simp: deref_def rel split: sum.splits)
  from rel loop show "\<exists>s1. lockCall CallReleaseSharedLock self (Some a) s = Inr s1 \<and>
         lockCalls s1 = lockCalls s @ [(CallReleaseSharedLock, a)] \<and>
         nodes s1 = (nodes s)[a := (nodes s ! a)\<lparr>lock := (lock (nodes s ! a))
            \<lparr>readersNumber := readersNumber (lock (nodes s ! a)) - 1,
             mayWriterThreadId := None\<rparr>\<rparr>] \<and>
         InsertTail_while self k (Some a) s =
           (case lockCall CallLockMayWrite self (prevPtr (nodes s ! a)) s1 of
              Inl e \<Rightarrow> Some (Inl e)
            | Inr s2 \<Rightarrow> InsertTail_while self k (prevPtr (nodes s ! a)) s2)"
    by (intro exI [of _ s1]) (simp add: s1_def)
qed

text \<open>
  The statement of C6 at a free lock taken in MAY_WRITE mode, at a lock with a queued
  may-writer, and at the iteration of the loop of \<open>InsertTail\<close> for the key 3 that starts at
  the node with key 5.
\<close>

theorem ReleaseSharedLock_clears_mayWriter_witness:
  "\<exists>s s1 s2.
     InsertHead 1 5 CHR ''a'' ConcurrentDoublyLinkedList = Some (Inr (True, s)) \<and>
     lockCall CallLockMayWrite 1 (Some 2) s = Inr s1 \<and>
     lock (nodes s1 ! 2) = heldMayWrite 1 \<and>
     lockCall CallReleaseSharedLock 1 (Some 2) s1 = Inr s2 \<and>
     lock (nodes s2 ! 2) = newLock \<and>
     InsertTail_while 1 3 (Some 2) s1 =
       (case lockCall CallLockMayWrite 1 (Some 0) s2 of
          Inl e \<Rightarrow> Some (Inl e)
        | Inr s3 \<Rightarrow> InsertTail_while 1 3 (Some 0) s3) \<and>
     ReleaseSharedLock 1 (heldMayWrite 1) = Inr (Returned None newLock) \<and>
     CanAcquireLock MAY_WRITE newLock \<and>
     LockMayWrite 2 0 newLock = Inr (Returned None (heldMayWrite 2)) \<and>
     ReleaseSharedLock 1
       \<lparr>threadQueue = [(4, MAY_WRITE, 1)], readersNumber = 1, isWriterHolding = False,
        mayWriterThreadId = Some 1\<rparr> =
       Inr (Returned (Some 4)
         \<lparr>threadQueue = [(4, MAY_WRITE, 1)], readersNumber = 0, isWriterHolding = False,
          mayWriterThreadId = None\<rparr>) \<and>
     LockMayWrite_wake 2 4
       \<lparr>threadQueue = [(4, MAY_WRITE, 1)], readersNumber = 0, isWriterHolding = False,
        mayWriterThreadId = None\<rparr> =
       Inr (Returned None
         \<lparr>threadQueue = [], readersNumber = 1, isWriterHolding = False,
          mayWriterThreadId = Some 2\<rparr>)"
proof -
  have "\<exists>s s1.
     InsertHead 1 5 CHR ''a'' ConcurrentDoublyLinkedList = Some (Inr (True, s)) \<and>
     lockCall CallLockMayWrite 1 (Some 2) s = Inr s1 \<and>
     lock (nodes s1 ! 2) = heldMayWrite 1 \<and> length (nodes s1) = 3 \<and>
     key (nodes s1 ! 2) = 5 \<and> prevPtr (nodes s1 ! 2) = Some 0"
    by (simp add: list_eval eval_defs FindKey_while.simps heldMayWrite_def)
  then obtain s s1 where
    s: "InsertHead 1 5 CHR ''a'' ConcurrentDoublyLinkedList = Some (Inr (True, s))"
    and s1: "lockCall CallLockMayWrite 1 (Some 2) s = Inr s1"
    and l: "lock (nodes s1 ! 2) = heldMayWrite 1" and len: "length (nodes s1) = 3"
    and k: "key (nodes s1 ! 2) = 5" and p: "prevPtr (nodes s1 ! 2) = Some 0"
    by blast
  have pre: "2 < length (nodes s1) \<and> mayWriterThreadId (lock (nodes s1 ! 2)) = Some 1 \<and>
        readersNumber (lock (nodes s1 ! 2)) \<noteq> 0 \<and>
        ((3 < key (nodes s1 ! 2) \<and> 2 \<noteq> head) \<or> \<not> isNodeActive (nodes s1 ! 2))"
    by (simp add: l len k heldMayWrite_def newLock_def head_def)
  from ReleaseSharedLock_clears_mayWriter [where a = 2 and s = s1 and self = 1 and k = 3, THEN conjunct2, rule_format, OF pre]
  obtain s2 where s2: "lockCall CallReleaseSharedLock 1 (Some 2) s1 = Inr s2"
    and n2: "nodes s2 = (nodes s1)[2 := (nodes s1 ! 2)\<lparr>lock := (lock (nodes s1 ! 2))
            \<lparr>readersNumber := readersNumber (lock (nodes s1 ! 2)) - 1,
             mayWriterThreadId := None\<rparr>\<rparr>]"
    and loop: "InsertTail_while 1 3 (Some 2) s1 =
           (case lockCall CallLockMayWrite 1 (prevPtr (nodes s1 ! 2)) s2 of
              Inl e \<Rightarrow> Some (Inl e)
            | Inr s3 \<Rightarrow> InsertTail_while 1 3 (prevPtr (nodes s1 ! 2)) s3)"
    by blast
  have l2: "lock (nodes s2 ! 2) = newLock"
    by (simp add: n2 len l heldMayWrite_def newLock_def)
  have a: "ReleaseSharedLock 1 (heldMayWrite 1) = Inr (Returned None newLock) \<and>
     CanAcquireLock MAY_WRITE newLock \<and>
     LockMayWrite 2 0 newLock = Inr (Returned None (heldMayWrite 2))"
    using ReleaseSharedLock_clears_mayWriter [of "heldMayWrite 1" 1 2 0, THEN conjunct1]
    by (simp add: heldMayWrite_def newLock_def TryNotifyingNext_def)
  have b: "ReleaseSharedLock 1
       \<lparr>threadQueue = [(4, MAY_WRITE, 1)], readersNumber = 1, isWriterHolding = False,
        mayWriterThreadId = Some 1\<rparr> =
       Inr (Returned (Some 4)
         \<lparr>threadQueue = [(4, MAY_WRITE, 1)], readersNumber = 0, isWriterHolding = False,
          mayWriterThreadId = None\<rparr>) \<and>
     LockMayWrite_wake 2 4
       \<lparr>threadQueue = [(4, MAY_WRITE, 1)], readersNumber = 0, isWriterHolding = False,
        mayWriterThreadId = None\<rparr> =
       Inr (Returned None
         \<lparr>threadQueue = [], readersNumber = 1, isWriterHolding = False,
          mayWriterThreadId = Some 2\<rparr>)"
    using ReleaseSharedLock_clears_mayWriter [of "\<lparr>threadQueue = [(4, MAY_WRITE, 1)], readersNumber = 1, isWriterHolding = False,
        mayWriterThreadId = Some 1\<rparr>" 1 2 0, THEN conjunct1]
    by (simp add: TryNotifyingNext_def)
  from s s1 l s2 l2 loop a b show ?thesis
    unfolding p by (intro exI [of _ s] exI [of _ s1] exI [of _ s2] conjI) simp_all
qed

text \<open>
  Claim C5, as stated: in a read-mode advance step the traversal acquires the lock of the
  next node in READ mode and then releases the lock of the current node, holding exactly one
  node lock at a time. This fails: \<open>AdvanceAndLockReadMayWrite\<close> with \<open>isRead\<close> calls
  \<open>ReleaseSharedLock\<close> on the current node first and \<open>LockRead\<close> on the next node after it.
  On the empty list, from \<open>head\<close> (read-locked) to \<open>tail\<close>: the calls are logged in that order,
  and after the first of them the thread holds no lock at all.
\<close>

theorem read_advance_acquires_then_releases_counterexample:
  "AdvanceAndLockReadMayWrite 1 (Some head) (Some head) True
     \<lparr>nodes = [(newNode 0 CHR ''0'' None (Some tail))\<lparr>lock := heldRead\<rparr>,
               newNode 0 CHR ''0'' (Some head) None],
      lockCalls = [(CallLockRead, head)]\<rparr> =
   Inr (Some head, Some tail,
     \<lparr>nodes = [newNode 0 CHR ''0'' None (Some tail),
               (newNode 0 CHR ''0'' (Some head) None)\<lparr>lock := heldRead\<rparr>],
      lockCalls = [(CallLockRead, head), (CallReleaseSharedLock, head), (CallLockRead, tail)]\<rparr>) \<and>
   lockCall CallReleaseSharedLock 1 (Some head)
     \<lparr>nodes = [(newNode 0 CHR ''0'' None (Some tail))\<lparr>lock := heldRead\<rparr>,
               newNode 0 CHR ''0'' (Some head) None],
      lockCalls = [(CallLockRead, head)]\<rparr> =
   Inr \<lparr>nodes = [newNode 0 CHR ''0'' None (Some tail), newNode 0 CHR ''0'' (Some head) None],
        lockCalls = [(CallLockRead, head), (CallReleaseSharedLock, head)]\<rparr> \<and>
   heldAfter [] [(CallLockRead, head), (CallReleaseSharedLock, head)] = [] \<and>
   [(CallReleaseSharedLock, head), (CallLockRead, tail)] \<noteq>
   [(CallLockRead, tail), (CallReleaseSharedLock, head)]"
  by (simp add: list_eval eval_defs heldRead_def)

text \<open>
  Claim C5, amended: a read-mode advance step from a node \<open>a\<close> whose lock the thread holds
  in READ mode to its successor \<open>b\<close>, whose lock is free, first releases the lock of \<open>a\<close>
  and then acquires the lock of \<open>b\<close> in READ mode. The thread holds one node lock before
  the step (that of \<open>a\<close>) and one after it (that of \<open>b\<close>), and none in between: at most one
  at a time.
\<close>

theorem read_advance_releases_then_acquires:
  assumes a: "a < length (nodes s)" and held: "lock (nodes s ! a) = heldRead"
    and nx: "nextPtr (nodes s ! a) = Some b"
    and b: "b < length (nodes s)" and free: "lock (nodes s ! b) = newLock"
  shows "\<exists>s1 s'.
     AdvanceAndLockReadMayWrite self prev (Some a) True s = Inr (Some a, Some b, s') \<and>
     lockCall CallReleaseSharedLock self (Some a) s = Inr s1 \<and>
     nodes s1 = (nodes s)[a := (nodes s ! a)\<lparr>lock := newLock\<rparr>] \<and>
     lockCall CallLockRead self (Some b) s1 = Inr s' \<and>
     nodes s' = (nodes s1)[b := (nodes s1 ! b)\<lparr>lock := heldRead\<rparr>] \<and>
     lockCalls s' = lockCalls s @ [(CallReleaseSharedLock, a), (CallLockRead, b)] \<and>
     heldAfter [a] [(CallReleaseSharedLock, a)] = [] \<and>
     heldAfter [a] [(CallReleaseSharedLock, a), (CallLockRead, b)] = [b]"
proof -
  from held free have ne: "a \<noteq> b" by (auto simp: heldRead_def newLock_def)
  define s1 where "s1 = s\<lparr>nodes := (nodes s)[a := (nodes s ! a)\<lparr>lock := newLock\<rparr>],
                         lockCalls := lockCalls s @ [(CallReleaseSharedLock, a)]\<rparr>"
  define s' where "s' = s1\<lparr>nodes := (nodes s1)[b := (nodes s1 ! b)\<lparr>lock := heldRead\<rparr>],
                         lockCalls := lockCalls s1 @ [(CallLockRead, b)]\<rparr>"
  have r: "lockCall CallReleaseSharedLock self (Some a) s = Inr s1"
    using a held by (simp add: lockCall_def deref_def lockMethod_single s1_def)
  have fb: "lock (nodes s1 ! b) = newLock" using ne b free by (simp add: s1_def)
  have l: "lockCall CallLockRead self (Some b) s1 = Inr s'"
    using b fb by (simp add: lockCall_def deref_def lockMethod_single s'_def s1_def)
  have adv: "AdvanceAndLockReadMayWrite self prev (Some a) True s = Inr (Some a, Some b, s')"
    using a by (simp add: AdvanceAndLockReadMayWrite_def deref_def nx r l)
  from adv r l show ?thesis
    by (intro exI [of _ s1] exI [of _ s']) (simp add: s1_def s'_def)
qed

text \<open>
  The amended statement of C5 at the step from \<open>head\<close> to \<open>tail\<close> in the empty list, and
  the lock calls of a whole \<open>Search\<close> there.
\<close>

theorem read_advance_releases_then_acquires_witness:
  "\<exists>s0 s1 s s2.
     lockCall CallLockRead 1 (Some head) ConcurrentDoublyLinkedList = Inr s0 \<and>
     AdvanceAndLockReadMayWrite 1 (Some head) (Some head) True s0 = Inr (Some head, Some tail, s) \<and>
     lockCall CallReleaseSharedLock 1 (Some head) s0 = Inr s1 \<and>
     nodes s1 = nodes ConcurrentDoublyLinkedList \<and>
     lockCall CallLockRead 1 (Some tail) s1 = Inr s \<and>
     lockCalls s = [(CallLockRead, head), (CallReleaseSharedLock, head), (CallLockRead, tail)] \<and>
     Search 1 5 (Some CHR ''x'') ConcurrentDoublyLinkedList = Some (Inr (False, Some CHR ''x'', s2)) \<and>
     lockCalls s2 = [(CallLockRead, head), (CallReleaseSharedLock, head), (CallLockRead, tail),
                     (CallReleaseSharedLock, tail)]"
proof -
  have "\<exists>s0 s2. lockCall CallLockRead 1 (Some head) ConcurrentDoublyLinkedList = Inr s0 \<and>
      lockCalls s0 = [(CallLockRead, head)] \<and>
      nodes s0 = (nodes ConcurrentDoublyLinkedList)
                   [head := (nodes ConcurrentDoublyLinkedList ! head)\<lparr>lock := heldRead\<rparr>] \<and>
      Search 1 5 (Some CHR ''x'') ConcurrentDoublyLinkedList = Some (Inr (False, Some CHR ''x'', s2)) \<and>
      lockCalls s2 = [(CallLockRead, head), (CallReleaseSharedLock, head), (CallLockRead, tail),
                     (CallReleaseSharedLock, tail)]"
    by (simp add: list_eval eval_defs FindKey_while.simps heldRead_def)
  then obtain s0 s2 where s0: "lockCall CallLockRead 1 (Some head) ConcurrentDoublyLinkedList = Inr s0"
    and log0: "lockCalls s0 = [(CallLockRead, head)]"
    and n0: "nodes s0 = (nodes ConcurrentDoublyLinkedList)
                   [head := (nodes ConcurrentDoublyLinkedList ! head)\<lparr>lock := heldRead\<rparr>]"
    and s2: "Search 1 5 (Some CHR ''x'') ConcurrentDoublyLinkedList = Some (Inr (False, Some CHR ''x'', s2))"
      "lockCalls s2 = [(CallLockRead, head), (CallReleaseSharedLock, head), (CallLockRead, tail),
                     (CallReleaseSharedLock, tail)]"
    by blast
  have pre: "head < length (nodes s0)" "lock (nodes s0 ! head) = heldRead"
    "nextPtr (nodes s0 ! head) = Some tail" "tail < length (nodes s0)"
    "lock (nodes s0 ! tail) = newLock"
    by (simp_all add: n0 ConcurrentDoublyLinkedList_def newNode_def head_def tail_def)
  from read_advance_releases_then_acquires [OF pre, of 1 "Some head"] obtain s1 s where
    "AdvanceAndLockReadMayWrite 1 (Some head) (Some head) True s0 = Inr (Some head, Some tail, s)"
    "lockCall CallReleaseSharedLock 1 (Some head) s0 = Inr s1"
    "nodes s1 = (nodes s0)[head := (nodes s0 ! head)\<lparr>lock := newLock\<rparr>]"
    "lockCall CallLockRead 1 (Some tail) s1 = Inr s"
    "lockCalls s = lockCalls s0 @ [(CallReleaseSharedLock, head), (CallLockRead, tail)]"
    by blast
  moreover have "(nodes s0)[head := (nodes s0 ! head)\<lparr>lock := newLock\<rparr>] = nodes ConcurrentDoublyLinkedList"
    by (simp add: n0 ConcurrentDoublyLinkedList_def newNode_def head_def tail_def)
  ultimately show ?thesis using s0 s2 log0
    by (intro exI [of _ s0] exI [of _ s1] exI [of _ s] exI [of _ s2]) simp
qed

text \<open>
  Claim C8: in a sorted list, \<open>FindKey\<close> is called from a start that is \<open>head\<close> or an
  internal node whose key is smaller than \<open>key\<close>, with the lock of the start held in the mode
  of the call: \<open>Search\<close>, \<open>Delete\<close> and \<open>InsertHead\<close> start at \<open>head\<close>, and \<open>InsertTail\<close> passes
  \<open>prev\<close> only when it is \<open>head\<close> or \<open>prev->key < key\<close>. From such a start \<open>FindKey\<close> returns,
  in both modes. The node \<open>c\<close> it returns is the first node at or after the start, \<open>head\<close>
  apart, whose key is at least \<open>key\<close>, or \<open>tail\<close> when there is none. It is never \<open>head\<close>. On
  return \<open>position->nextPtr\<close> is \<open>c\<close>. The thread then holds the lock of \<open>c\<close> in read mode,
  and the locks of \<open>position\<close> and \<open>c\<close> in may-write mode, and no other.
\<close>

theorem FindKey_candidate:
  fixes k :: int
  assumes wf: "sortedList h xs" and xs: "xs = as @ bs" and p: "position = last (head # as)"
    and start: "position = head \<or> key (h ! position) < k"
    and s: "nodes s = h[position := (h ! position)
                          \<lparr>lock := if isRead then heldRead else heldMayWrite self\<rparr>]"
  shows "\<exists>p' c s'.
     FindKey self (Some position) k isRead s = Some (Inr (Some p', Some c, s')) \<and>
     List.find (\<lambda>a. a \<noteq> head \<and> (k \<le> key (h ! a) \<or> a = tail)) (position # bs @ [tail]) = Some c \<and>
     c \<noteq> head \<and>
     nextPtr (nodes s' ! p') = Some c \<and>
     length (nodes s') = length h \<and>
     (\<forall>a < length h. nodes s' ! a =
        (h ! a)\<lparr>lock := if a = c \<or> (\<not> isRead \<and> a = p')
                          then (if isRead then heldRead else heldMayWrite self)
                          else newLock\<rparr>)"
proof -
  note R = sortedList_range [OF wf]
  have pin: "position \<in> set (head # as)" unfolding p by (rule last_in_set) simp
  then have pl: "position < length h" using R by (auto simp: xs)
  from pin have pt: "position \<noteq> tail" using R(5) by (auto simp: xs)
  have q: "\<forall>b < length h. lock (h ! b) = newLock" using wf by (simp add: sortedList_def)
  from start pt have nQ: "\<not> (position \<noteq> head \<and> (k \<le> key (h ! position) \<or> position = tail))"
    by auto
  show ?thesis
  proof (cases isRead)
    case True
    define f where "f = (\<lambda>b. if b = position then heldRead else newLock)"
    have s': "nodes s = locked f h"
      using s True locked_single [OF pl q, of heldRead] by (simp add: f_def)
    have f: "\<forall>a < length h. f a = (if a = position then heldRead else newLock)"
      by (simp add: f_def)
    from FindKey_read [OF wf xs p s' f, of self k] obtain p' s1 f' c where
      run: "FindKey self (Some position) k True s = Some (Inr (Some p', Some c, s1))"
      and ns: "nodes s1 = locked f' h"
      and f': "\<forall>a < length h. f' a = (if a = c then heldRead else newLock)"
      and adj: "if c = position then p' = position else nextPtr (h ! p') = Some c"
      and c: "c \<noteq> head" "c < length h" and p': "p' < length h"
      and fi: "List.find (\<lambda>a. a \<noteq> head \<and> (k \<le> key (h ! a) \<or> a = tail)) (position # bs @ [tail]) = Some c"
      by blast
    from fi have "c \<noteq> head \<and> (k \<le> key (h ! c) \<or> c = tail)" by (rule find_SomeD)
    with nQ have "c \<noteq> position" by auto
    with adj have "nextPtr (h ! p') = Some c" by simp
    with run ns f' c p' fi show ?thesis using True
      by (intro exI [of _ p'] exI [of _ c] exI [of _ s1]) (auto simp: nth_locked)
  next
    case False
    define f where "f = (\<lambda>b. if b = position then heldMayWrite self else newLock)"
    have s': "nodes s = locked f h"
      using s False locked_single [OF pl q, of "heldMayWrite self"] by (simp add: f_def)
    have f: "\<forall>a < length h. f a = (if a = position then heldMayWrite self else newLock)"
      by (simp add: f_def)
    from FindKey_mayWrite_candidate [OF wf xs p s' f, of k] obtain p' c s1 f' where
      run: "FindKey self (Some position) k False s = Some (Inr (Some p', Some c, s1))"
      and ns: "nodes s1 = locked f' h"
      and f': "\<forall>a < length h. f' a = (if a = p' \<or> a = c then heldMayWrite self else newLock)"
      and adj: "nextPtr (h ! p') = Some c"
      and c: "c \<noteq> head" "c < length h" and p': "p' < length h"
      and fi: "List.find (\<lambda>a. a \<noteq> head \<and> (k \<le> key (h ! a) \<or> a = tail)) (bs @ [tail]) = Some c"
      by blast
    from fi nQ have fi': "List.find (\<lambda>a. a \<noteq> head \<and> (k \<le> key (h ! a) \<or> a = tail))
        (position # bs @ [tail]) = Some c"
      by auto
    from run ns f' adj c p' fi' show ?thesis using False
      by (intro exI [of _ p'] exI [of _ c] exI [of _ s1]) (auto simp: nth_locked)
  qed
qed

text \<open>
  The statement of C8 in the list with the one key 5: in read mode from \<open>head\<close> for the key
  5, in may-write mode from \<open>head\<close> for the key 7, and in may-write mode from the node with
  key 5 for the key 7.
\<close>

theorem FindKey_candidate_witness:
  "(\<exists>p' s'. FindKey 1 (Some 0) 5 True
       \<lparr>nodes = [(newNode 0 CHR ''0'' None (Some 2))\<lparr>lock := heldRead\<rparr>,
                 newNode 0 CHR ''0'' (Some 2) None, newNode 5 CHR ''a'' (Some 0) (Some 1)],
        lockCalls = []\<rparr> = Some (Inr (Some p', Some 2, s')) \<and>
       nextPtr (nodes s' ! p') = Some 2 \<and> lock (nodes s' ! 2) = heldRead) \<and>
   (\<exists>p' s'. FindKey 1 (Some 0) 7 False
       \<lparr>nodes = [(newNode 0 CHR ''0'' None (Some 2))\<lparr>lock := heldMayWrite 1\<rparr>,
                 newNode 0 CHR ''0'' (Some 2) None, newNode 5 CHR ''a'' (Some 0) (Some 1)],
        lockCalls = []\<rparr> = Some (Inr (Some p', Some 1, s')) \<and>
       nextPtr (nodes s' ! p') = Some 1 \<and> lock (nodes s' ! 1) = heldMayWrite 1) \<and>
   (\<exists>p' s'. FindKey 1 (Some 2) 7 False
       \<lparr>nodes = [newNode 0 CHR ''0'' None (Some 2), newNode 0 CHR ''0'' (Some 2) None,
                 (newNode 5 CHR ''a'' (Some 0) (Some 1))\<lparr>lock := heldMayWrite 1\<rparr>],
        lockCalls = []\<rparr> = Some (Inr (Some p', Some 1, s')) \<and>
       nextPtr (nodes s' ! p') = Some 1 \<and> lock (nodes s' ! 1) = heldMayWrite 1)"
proof (intro conjI)
  show "\<exists>p' s'. FindKey 1 (Some 0) 5 True
       \<lparr>nodes = [(newNode 0 CHR ''0'' None (Some 2))\<lparr>lock := heldRead\<rparr>,
                 newNode 0 CHR ''0'' (Some 2) None, newNode 5 CHR ''a'' (Some 0) (Some 1)],
        lockCalls = []\<rparr> = Some (Inr (Some p', Some 2, s')) \<and>
       nextPtr (nodes s' ! p') = Some 2 \<and> lock (nodes s' ! 2) = heldRead"
    using FindKey_candidate [OF sortedList_example, of "[]" "[2]" 0 5
        "\<lparr>nodes = [(newNode 0 CHR ''0'' None (Some 2))\<lparr>lock := heldRead\<rparr>,
                 newNode 0 CHR ''0'' (Some 2) None, newNode 5 CHR ''a'' (Some 0) (Some 1)],
        lockCalls = []\<rparr>" True 1]
    by (simp add: head_def tail_def) (auto simp: newNode_def)
  show "\<exists>p' s'. FindKey 1 (Some 0) 7 False
       \<lparr>nodes = [(newNode 0 CHR ''0'' None (Some 2))\<lparr>lock := heldMayWrite 1\<rparr>,
                 newNode 0 CHR ''0'' (Some 2) None, newNode 5 CHR ''a'' (Some 0) (Some 1)],
        lockCalls = []\<rparr> = Some (Inr (Some p', Some 1, s')) \<and>
       nextPtr (nodes s' ! p') = Some 1 \<and> lock (nodes s' ! 1) = heldMayWrite 1"
    using FindKey_candidate [OF sortedList_example, of "[]" "[2]" 0 7
        "\<lparr>nodes = [(newNode 0 CHR ''0'' None (Some 2))\<lparr>lock := heldMayWrite 1\<rparr>,
                 newNode 0 CHR ''0'' (Some 2) None, newNode 5 CHR ''a'' (Some 0) (Some 1)],
        lockCalls = []\<rparr>" False 1]
    by (simp add: head_def tail_def) (auto simp: newNode_def)
  show "\<exists>p' s'. FindKey 1 (Some 2) 7 False
       \<lparr>nodes = [newNode 0 CHR ''0'' None (Some 2), newNode 0 CHR ''0'' (Some 2) None,
                 (newNode 5 CHR ''a'' (Some 0) (Some 1))\<lparr>lock := heldMayWrite 1\<rparr>],
        lockCalls = []\<rparr> = Some (Inr (Some p', Some 1, s')) \<and>
       nextPtr (nodes s' ! p') = Some 1 \<and> lock (nodes s' ! 1) = heldMayWrite 1"
    using FindKey_candidate [OF sortedList_example, of "[2]" "[]" 2 7
        "\<lparr>nodes = [newNode 0 CHR ''0'' None (Some 2), newNode 0 CHR ''0'' (Some 2) None,
                 (newNode 5 CHR ''a'' (Some 0) (Some 1))\<lparr>lock := heldMayWrite 1\<rparr>],
        lockCalls = []\<rparr>" False 1]
    by (simp add: head_def tail_def) (auto simp: newNode_def)
qed

end
